theory Spec2Isabelle
  imports Complex_Main "HOL-Library.Sublist"
begin

text \<open>
  A model of \<open>equation-fuzzer.cpp\<close>: the class \<open>EquationFuzzer\<close> with its search loop
  \<open>Fuzz\<close>, and \<open>main\<close>. The expression parser (exprtk), the random engine with its two
  distributions and the stream formatting are parameters of the model; the state of the
  object is passed explicitly, \<open>exit\<close> is a result, and a loop without a bound has no
  result where it does not end.
\<close>

section \<open>Doubles\<close>

text \<open>
  The C++ type \<open>double\<close>: a finite value, one of the two infinities, or a NaN. A finite
  double is represented by the real number it denotes (the two signed zeros are both
  \<open>Fin 0\<close>, which is what every comparison of the program sees), and the sum or difference
  of two finite doubles by the exact real result. This is an idealisation: the machine
  rounds a sum to the nearest double and lets a sum too large in size become an infinity,
  and neither is represented, so \<open>d_add\<close> and \<open>d_sub\<close> agree with the machine only where
  the exact result is itself a double. The statements below do not rest on the value of
  any particular sum: they are about which draws enter a sum, about signs, tests against
  zero, NaN, and the truncation that follows a sum, and they name sums through \<open>d_add\<close>
  and \<open>d_sub\<close>. The special values follow IEEE 754: any operation on a NaN gives a
  NaN, the difference of two equal infinities is a NaN, and every ordered comparison with
  a NaN is false.
\<close>

datatype double = Fin real | PInf | NInf | NaN

fun d_neg :: "double \<Rightarrow> double" where
  "d_neg (Fin x) = Fin (- x)"
| "d_neg PInf = NInf"
| "d_neg NInf = PInf"
| "d_neg NaN = NaN"

fun d_add :: "double \<Rightarrow> double \<Rightarrow> double" where
  "d_add NaN _ = NaN"
| "d_add _ NaN = NaN"
| "d_add (Fin x) (Fin y) = Fin (x + y)"
| "d_add PInf NInf = NaN"
| "d_add NInf PInf = NaN"
| "d_add PInf _ = PInf"
| "d_add NInf _ = NInf"
| "d_add (Fin x) PInf = PInf"
| "d_add (Fin x) NInf = NInf"

definition d_sub :: "double \<Rightarrow> double \<Rightarrow> double" where
  "d_sub a b = d_add a (d_neg b)"

fun d_abs :: "double \<Rightarrow> double" where
  "d_abs (Fin x) = Fin \<bar>x\<bar>"
| "d_abs PInf = PInf"
| "d_abs NInf = PInf"
| "d_abs NaN = NaN"

text \<open>The comparison \<open>a < b\<close> of two doubles.\<close>

fun d_lt :: "double \<Rightarrow> double \<Rightarrow> bool" where
  "d_lt (Fin x) (Fin y) = (x < y)"
| "d_lt (Fin x) PInf = True"
| "d_lt NInf (Fin y) = True"
| "d_lt NInf PInf = True"
| "d_lt _ _ = False"

definition d_gt :: "double \<Rightarrow> double \<Rightarrow> bool" where
  "d_gt a b = d_lt b a"

text \<open>\<open>a >= b\<close>, used to state sign properties.\<close>

fun d_ge :: "double \<Rightarrow> double \<Rightarrow> bool" where
  "d_ge (Fin x) (Fin y) = (y \<le> x)"
| "d_ge (Fin x) NInf = True"
| "d_ge PInf (Fin y) = True"
| "d_ge PInf PInf = True"
| "d_ge PInf NInf = True"
| "d_ge NInf NInf = True"
| "d_ge NaN _ = False"
| "d_ge _ NaN = False"
| "d_ge (Fin x) PInf = False"
| "d_ge NInf (Fin y) = False"
| "d_ge NInf PInf = False"

text \<open>
  \<open>std::modf(x, &z)\<close>: the fractional part of \<open>x\<close>, with the sign of \<open>x\<close>, is returned
  and the integral part is stored in \<open>z\<close>. The pair is (fractional part, integral part).
\<close>

definition trunc_real :: "real \<Rightarrow> real" where
  "trunc_real x = (if 0 \<le> x then of_int \<lfloor>x\<rfloor> else of_int \<lceil>x\<rceil>)"

fun d_modf :: "double \<Rightarrow> double \<times> double" where
  "d_modf (Fin x) = (Fin (x - trunc_real x), Fin (trunc_real x))"
| "d_modf PInf = (Fin 0, PInf)"
| "d_modf NInf = (Fin 0, NInf)"
| "d_modf NaN = (NaN, NaN)"

section \<open>The fuzzer object\<close>

text \<open>
  \<open>NumStruct\<close> is \<open>struct { double numbers[NumNumbers]; }\<close>: a list of doubles whose
  length is the template parameter.
\<close>

type_synonym NumStruct = "double list"

text \<open>
  The template parameter and the \<open>const\<close> members of \<open>EquationFuzzer\<close>. The member
  \<open>round\<close> is called \<open>round_flag\<close> here. The \<open>static_assert\<close> of the class is
  \<open>valid_config\<close>.
\<close>

record config =
  NumNumbers :: nat
  round_flag :: bool
  conditions :: "string list"
  expr1 :: string
  expr2 :: string

definition valid_config :: "config \<Rightarrow> bool" where
  "valid_config cfg = (NumNumbers cfg > 0 \<and> NumNumbers cfg \<le> 26)"

text \<open>
  The libraries the class calls, taken as parameters. \<open>'g\<close> is the state of
  \<open>std::default_random_engine\<close>.
  \<^item> \<open>parser_compile\<close> is \<open>exprtk::parser::compile\<close> against the symbol table of the
    variables \<open>a\<close>, \<open>b\<close>, ...: the parser's error message, or the compiled expression as
    the function from the bound values to \<open>expression.value()\<close>.
  \<^item> \<open>unifSizeT\<close> and \<open>unifDouble\<close> are one call of the distribution of that name on the
    engine: the value drawn and the engine's next state. A \<open>size_t\<close> draw is a natural
    number; the program only ever reduces it with \<open>%\<close>.
  \<^item> \<open>show_double\<close> and \<open>show_size_t\<close> are \<open>operator<<\<close> of \<open>std::ostream\<close>.
\<close>

record 'g extern =
  parser_compile :: "string \<Rightarrow> string + (NumStruct \<Rightarrow> double)"
  unifSizeT :: "'g \<Rightarrow> nat \<times> 'g"
  unifDouble :: "'g \<Rightarrow> double \<times> 'g"
  show_double :: "double \<Rightarrow> string"
  show_size_t :: "nat \<Rightarrow> string"

text \<open>
  What the process does that can be observed from outside, in order: a call of the
  expression parser on a text, and the blocks written to \<open>std::cout\<close>.
\<close>

datatype event =
    UsageReport string
  | ParserCompile string
  | ErrorReport string string
  | ProgressReport string string string string string string
  | SolutionReport string string "string list" string string

text \<open>
  The mutable members of the object (\<open>iter\<close>, \<open>prng\<close>, \<open>corpus\<close>), the local variable
  \<open>diff\<close> of \<open>Fuzz\<close> (a \<open>boost::optional<double>\<close>), and the events so far.
\<close>

record 'g fuzzer =
  iter :: nat
  prng :: 'g
  corpus :: "NumStruct list"
  diff :: "double option"
  events :: "event list"

text \<open>
  How a piece of code that may call \<open>exit\<close> ends: it returns a value, or the process has
  exited with a status. Both carry the state reached.
\<close>

datatype ('a, 'g) result = Returns 'a "'g fuzzer" | Exits nat "'g fuzzer"

definition emit :: "event \<Rightarrow> 'g fuzzer \<Rightarrow> 'g fuzzer" where
  "emit e s = s\<lparr>events := events s @ [e]\<rparr>"

subsection \<open>getRandomDouble\<close>

text \<open>
  The loop draws until the draw is not zero. A source whose draws are all zero keeps it
  running for ever: that is the value \<open>None\<close>.
\<close>

partial_function (option) getRandomDouble_loop ::
  "('g \<Rightarrow> double \<times> 'g) \<Rightarrow> 'g \<Rightarrow> (double \<times> 'g) option" where
  "getRandomDouble_loop ud g =
     (let (ret, g') = ud g in
      if ret = Fin 0 then getRandomDouble_loop ud g' else Some (ret, g'))"

declare getRandomDouble_loop.simps [code]

definition getRandomDouble :: "'g extern \<Rightarrow> 'g fuzzer \<Rightarrow> (double \<times> 'g fuzzer) option" where
  "getRandomDouble ext s =
     (case getRandomDouble_loop (unifDouble ext) (prng s) of
        None \<Rightarrow> None
      | Some (ret, g') \<Rightarrow> Some (ret, s\<lparr>prng := g'\<rparr>))"

subsection \<open>calc\<close>

definition calc :: "'g extern \<Rightarrow> string \<Rightarrow> NumStruct \<Rightarrow> 'g fuzzer \<Rightarrow> (double, 'g) result" where
  "calc ext expressionStr ns s =
     (let s1 = emit (ParserCompile expressionStr) s in
      case parser_compile ext expressionStr of
        Inl err \<Rightarrow> Exits 1 (emit (ErrorReport err expressionStr) s1)
      | Inr expression \<Rightarrow> Returns (expression ns) s1)"

subsection \<open>toString, toScript\<close>

definition toString_index :: "nat \<Rightarrow> string" where
  "toString_index numIndex = [char_of (97 + numIndex)]"

fun toString_from :: "'g extern \<Rightarrow> nat \<Rightarrow> string \<Rightarrow> nat \<Rightarrow> NumStruct \<Rightarrow> string" where
  "toString_from ext n separator i [] = []"
| "toString_from ext n separator i (x # xs) =
     toString_index i @ ''='' @ show_double ext x
       @ (if i \<noteq> n - 1 then separator else []) @ toString_from ext n separator (Suc i) xs"

definition toString :: "'g extern \<Rightarrow> config \<Rightarrow> NumStruct \<Rightarrow> string \<Rightarrow> string" where
  "toString ext cfg ns separator = toString_from ext (NumNumbers cfg) separator 0 ns"

definition newline :: string where
  "newline = [char_of (10::nat)]"

definition toScript :: "'g extern \<Rightarrow> config \<Rightarrow> NumStruct \<Rightarrow> string" where
  "toScript ext cfg ns =
     toString ext cfg ns newline @ newline @ expr1 cfg @ '' == '' @ expr2 cfg @ newline"

subsection \<open>numStructToDiff\<close>

text \<open>The value returned is the difference; \<open>res1\<close> and \<open>res2\<close> are the out-parameters.\<close>

definition numStructToDiff ::
  "'g extern \<Rightarrow> config \<Rightarrow> NumStruct \<Rightarrow> 'g fuzzer \<Rightarrow> (double \<times> double \<times> double, 'g) result" where
  "numStructToDiff ext cfg ns s =
     (case calc ext (expr1 cfg) ns s of
        Exits c s1 \<Rightarrow> Exits c s1
      | Returns res1 s1 \<Rightarrow>
          (case calc ext (expr2 cfg) ns s1 of
             Exits c s2 \<Rightarrow> Exits c s2
           | Returns res2 s2 \<Rightarrow>
               Returns (d_abs (if d_gt res1 res2 then d_sub res1 res2 else d_sub res2 res1),
                        res1, res2)
                 (s2\<lparr>iter := iter s2 + 1\<rparr>)))"

subsection \<open>getStatic, mutate\<close>

definition draw_size_t :: "'g extern \<Rightarrow> 'g fuzzer \<Rightarrow> nat \<times> 'g fuzzer" where
  "draw_size_t ext s = (let (x, g') = unifSizeT ext (prng s) in (x, s\<lparr>prng := g'\<rparr>))"

text \<open>
  \<open>corpus[unifSizeT(prng) % corpus.size()]\<close>. With an empty corpus the remainder is
  undefined in C++; the model has no result there (\<open>None\<close>). The constructor puts one
  element in and nothing removes any.
\<close>

definition getStatic :: "'g extern \<Rightarrow> 'g fuzzer \<Rightarrow> (NumStruct \<times> 'g fuzzer) option" where
  "getStatic ext s =
     (if corpus s = [] then None
      else let (x, s1) = draw_size_t ext s in Some (corpus s ! (x mod length (corpus s)), s1))"

text \<open>
  The body of the \<open>for\<close> loop of \<open>mutate\<close>. \<open>whichNum\<close> is below \<open>NumNumbers\<close>, the
  length of \<open>ns\<close>, because \<open>NumNumbers > 0\<close>.
\<close>

definition mutate_body ::
  "'g extern \<Rightarrow> config \<Rightarrow> NumStruct \<Rightarrow> 'g fuzzer \<Rightarrow> (NumStruct \<times> 'g fuzzer) option" where
  "mutate_body ext cfg ns s =
     (let (x, s1) = draw_size_t ext s;
          whichNum = x mod NumNumbers cfg;
          (y, s2) = draw_size_t ext s1;
          whichMutator = y mod 2
      in case getRandomDouble ext s2 of
           None \<Rightarrow> None
         | Some (r, s3) \<Rightarrow>
             let ns1 = (if whichMutator = 0
                        then ns[whichNum := d_add (ns ! whichNum) r]
                        else ns[whichNum := d_sub (ns ! whichNum) r]);
                 ns2 = (if round_flag cfg = True
                        then ns1[whichNum := d_sub (ns1 ! whichNum) (fst (d_modf (ns1 ! whichNum)))]
                        else ns1)
             in Some (ns2, s3))"

text \<open>The \<open>for\<close> loop, by the number of rounds still to do.\<close>

fun mutate_for ::
  "'g extern \<Rightarrow> config \<Rightarrow> nat \<Rightarrow> NumStruct \<Rightarrow> 'g fuzzer \<Rightarrow> (NumStruct \<times> 'g fuzzer) option" where
  "mutate_for ext cfg 0 ns s = Some (ns, s)"
| "mutate_for ext cfg (Suc n) ns s =
     (case mutate_body ext cfg ns s of
        None \<Rightarrow> None
      | Some (ns', s') \<Rightarrow> mutate_for ext cfg n ns' s')"

text \<open>The \<open>while (true)\<close> of \<open>mutate\<close> returns in its first round.\<close>

definition mutate :: "'g extern \<Rightarrow> config \<Rightarrow> 'g fuzzer \<Rightarrow> (NumStruct \<times> 'g fuzzer) option" where
  "mutate ext cfg s =
     (case getStatic ext s of
        None \<Rightarrow> None
      | Some (ns, s1) \<Rightarrow> mutate_for ext cfg 3 ns s1)"

subsection \<open>The constructor\<close>

text \<open>
  The constructor's member initialisers, and the object it leaves: \<open>iter = 0\<close>, the
  engine in its default-constructed state \<open>g0\<close>, and a corpus of one value-initialised
  \<open>NumStruct\<close>. C++ fills in the default argument \<open>round = true\<close> at the call.
\<close>

definition EquationFuzzer :: "nat \<Rightarrow> string \<Rightarrow> string \<Rightarrow> string list \<Rightarrow> bool \<Rightarrow> config" where
  "EquationFuzzer n e1 e2 conds rnd =
     \<lparr>NumNumbers = n, round_flag = rnd, conditions = conds, expr1 = e1, expr2 = e2\<rparr>"

definition EquationFuzzer_default :: "nat \<Rightarrow> string \<Rightarrow> string \<Rightarrow> string list \<Rightarrow> config" where
  "EquationFuzzer_default n e1 e2 conds = EquationFuzzer n e1 e2 conds True"

definition constructed :: "config \<Rightarrow> 'g \<Rightarrow> 'g fuzzer" where
  "constructed cfg g0 =
     \<lparr>iter = 0, prng = g0, corpus = [replicate (NumNumbers cfg) (Fin 0)],
      diff = None, events = []\<rparr>"

subsection \<open>Fuzz\<close>

text \<open>
  The condition test of one round of the loop: the value of \<open>doContinue\<close> after the
  \<open>for\<close> over the conditions.
\<close>

fun test_conditions ::
  "'g extern \<Rightarrow> string list \<Rightarrow> NumStruct \<Rightarrow> 'g fuzzer \<Rightarrow> (bool, 'g) result" where
  "test_conditions ext [] ns s = Returns False s"
| "test_conditions ext (C # Cs) ns s =
     (case calc ext C ns s of
        Exits c s1 \<Rightarrow> Exits c s1
      | Returns v s1 \<Rightarrow>
          if v \<noteq> Fin 1 then Returns True s1 else test_conditions ext Cs ns s1)"

text \<open>How one round of \<open>while (true)\<close> in \<open>Fuzz\<close> ends.\<close>

datatype 'g status = Continue "'g fuzzer" | Return "'g fuzzer" | Exit nat "'g fuzzer"

fun state_of :: "'g status \<Rightarrow> 'g fuzzer" where
  "state_of (Continue s) = s"
| "state_of (Return s) = s"
| "state_of (Exit c s) = s"

fun is_Continue :: "'g status \<Rightarrow> bool" where
  "is_Continue (Continue s) = True"
| "is_Continue _ = False"

text \<open>Lines 189 to 218: what the loop does with a scored candidate.\<close>

definition decide ::
  "'g extern \<Rightarrow> config \<Rightarrow> NumStruct \<Rightarrow> double \<Rightarrow> double \<Rightarrow> double \<Rightarrow> 'g fuzzer \<Rightarrow> 'g status" where
  "decide ext cfg ns curDiff res1 res2 s =
     (if diff s = None \<or> (diff s \<noteq> None \<and> d_lt curDiff (the (diff s))) then
        let s1 = s\<lparr>corpus := corpus s @ [ns]\<rparr>;
            s2 = s1\<lparr>diff := Some curDiff\<rparr>;
            s3 = emit (ProgressReport (show_size_t ext (iter s2))
                         (show_size_t ext (length (corpus s2)))
                         (toString ext cfg ns '','')
                         (show_double ext res1) (show_double ext res2)
                         (show_double ext (the (diff s2)))) s2
        in if the (diff s3) = Fin 0
           then Return (emit (SolutionReport (expr1 cfg) (expr2 cfg) (conditions cfg)
                                (toString ext cfg ns '','') (toScript ext cfg ns)) s3)
           else Continue s3
      else Continue s)"

definition cycle :: "'g extern \<Rightarrow> config \<Rightarrow> 'g fuzzer \<Rightarrow> 'g status option" where
  "cycle ext cfg s =
     (case mutate ext cfg s of
        None \<Rightarrow> None
      | Some (ns, s1) \<Rightarrow>
          Some (case test_conditions ext (conditions cfg) ns s1 of
                  Exits c s2 \<Rightarrow> Exit c s2
                | Returns doContinue s2 \<Rightarrow>
                    if doContinue = True then Continue s2
                    else (case numStructToDiff ext cfg ns s2 of
                            Exits c s3 \<Rightarrow> Exit c s3
                          | Returns (curDiff, res1, res2) s3 \<Rightarrow>
                              decide ext cfg ns curDiff res1 res2 s3)))"

text \<open>
  The loop itself. It has no bound: \<open>None\<close> is a run that never leaves it.
\<close>

partial_function (option) Fuzz_loop ::
  "'g extern \<Rightarrow> config \<Rightarrow> 'g fuzzer \<Rightarrow> 'g status option" where
  "Fuzz_loop ext cfg s =
     (case cycle ext cfg s of
        None \<Rightarrow> None
      | Some st \<Rightarrow> if is_Continue st then Fuzz_loop ext cfg (state_of st) else Some st)"

declare Fuzz_loop.simps [code]

definition Fuzz :: "'g extern \<Rightarrow> config \<Rightarrow> 'g fuzzer \<Rightarrow> 'g status option" where
  "Fuzz ext cfg s = Fuzz_loop ext cfg (s\<lparr>diff := None\<rparr>)"

text \<open>The first \<open>n\<close> rounds of the loop, or fewer when it is left earlier.\<close>

fun cycles :: "'g extern \<Rightarrow> config \<Rightarrow> nat \<Rightarrow> 'g fuzzer \<Rightarrow> 'g status option" where
  "cycles ext cfg 0 s = Some (Continue s)"
| "cycles ext cfg (Suc n) s =
     (case cycle ext cfg s of
        None \<Rightarrow> None
      | Some st \<Rightarrow> if is_Continue st then cycles ext cfg n (state_of st) else Some st)"

subsection \<open>main\<close>

text \<open>
  \<open>main\<close> on the argument vector \<open>argv\<close> (\<open>argc\<close> is its length): the exit status and
  what was observed, or \<open>None\<close> when \<open>Fuzz\<close> never comes back.
\<close>

definition main_fuzzer :: "string list \<Rightarrow> config" where
  "main_fuzzer argv = EquationFuzzer_default 6 (argv ! 1) (argv ! 2) (drop 3 argv)"

definition main :: "'g extern \<Rightarrow> 'g \<Rightarrow> string list \<Rightarrow> (nat \<times> event list) option" where
  "main ext g0 argv =
     (if length argv \<le> 2 then Some (0, [UsageReport (argv ! 0)])
      else case Fuzz ext (main_fuzzer argv) (constructed (main_fuzzer argv) g0) of
             None \<Rightarrow> None
           | Some (Exit c s) \<Rightarrow> Some (c, events s)
           | Some st \<Rightarrow> Some (0, events (state_of st)))"


section \<open>Notions used in the statements\<close>

text \<open>An accepted improvement is reported by one progress line; they are counted.\<close>

fun is_progress :: "event \<Rightarrow> bool" where
  "is_progress (ProgressReport a b c d e f) = True"
| "is_progress _ = False"

definition acceptances :: "'g fuzzer \<Rightarrow> nat" where
  "acceptances s = length (filter is_progress (events s))"

text \<open>What a call leaves alone: the search state proper.\<close>

definition frame :: "'g fuzzer \<Rightarrow> 'g fuzzer \<Rightarrow> bool" where
  "frame s s' =
     (iter s' = iter s \<and> prng s' = prng s \<and> corpus s' = corpus s \<and> diff s' = diff s \<and>
      acceptances s' = acceptances s)"

text \<open>What the random draws leave alone: everything but the engine.\<close>

definition drew :: "'g fuzzer \<Rightarrow> 'g fuzzer \<Rightarrow> bool" where
  "drew s s' =
     (iter s' = iter s \<and> corpus s' = corpus s \<and> diff s' = diff s \<and> events s' = events s)"

text \<open>
  The test of line 189; and a state whose corpus, best difference and number of accepted
  improvements are those of another.
\<close>

definition improves :: "double \<Rightarrow> double option \<Rightarrow> bool" where
  "improves curDiff best = (best = None \<or> (\<exists>d. best = Some d \<and> d_lt curDiff d))"

definition kept :: "'g fuzzer \<Rightarrow> 'g fuzzer \<Rightarrow> bool" where
  "kept s s' =
     (corpus s' = corpus s \<and> diff s' = diff s \<and> acceptances s' = acceptances s)"

text \<open>The best difference has been set to a value below the old one, if there was one.\<close>

definition lowered :: "double option \<Rightarrow> double option \<Rightarrow> bool" where
  "lowered old new = (\<exists>d'. new = Some d' \<and> (old = None \<or> (\<exists>d. old = Some d \<and> d_lt d' d)))"

text \<open>
  A condition holds for a candidate when its text compiles and evaluates to exactly 1.0;
  \<open>evaluated\<close> are the conditions up to and including the first that does not hold.
\<close>

definition cond_holds :: "'g extern \<Rightarrow> NumStruct \<Rightarrow> string \<Rightarrow> bool" where
  "cond_holds ext ns C = (case parser_compile ext C of Inl err \<Rightarrow> False | Inr e \<Rightarrow> e ns = Fin 1)"

definition compiles :: "'g extern \<Rightarrow> string \<Rightarrow> bool" where
  "compiles ext C = (case parser_compile ext C of Inl err \<Rightarrow> False | Inr e \<Rightarrow> True)"

definition evaluated :: "'g extern \<Rightarrow> NumStruct \<Rightarrow> string list \<Rightarrow> string list" where
  "evaluated ext ns cs =
     takeWhile (cond_holds ext ns) cs @ take 1 (dropWhile (cond_holds ext ns) cs)"

text \<open>
  What the C++ standard promises of \<open>std::uniform_real_distribution<double>(-100, 100)\<close>:
  every draw \<open>x\<close> is a finite number with \<open>-100 <= x < 100\<close>.
\<close>

definition unifDouble_contract :: "'g extern \<Rightarrow> bool" where
  "unifDouble_contract ext = (\<forall>g. \<exists>x. fst (unifDouble ext g) = Fin x \<and> - 100 \<le> x \<and> x < 100)"

text \<open>From every state of the engine, drawing again and again meets a draw that is not zero.\<close>

definition redraw_ends :: "'g extern \<Rightarrow> bool" where
  "redraw_ends ext =
     (\<forall>g. \<exists>n. fst (unifDouble ext (((\<lambda>g. snd (unifDouble ext g)) ^^ n) g)) \<noteq> Fin 0)"

text \<open>A magnitude the mutation applies: not zero, and in the half-open interval.\<close>

definition magnitude :: "double \<Rightarrow> bool" where
  "magnitude m = (\<exists>x. m = Fin x \<and> x \<noteq> 0 \<and> - 100 \<le> x \<and> x < 100)"

text \<open>
  One perturbation step as the specification describes it: slot \<open>i\<close> gets the magnitude
  added or subtracted and, in round mode, is then truncated toward zero.
\<close>

definition truncate_toward_zero :: "double \<Rightarrow> double" where
  "truncate_toward_zero v = snd (d_modf v)"

definition perturb :: "bool \<Rightarrow> NumStruct \<Rightarrow> nat \<Rightarrow> bool \<Rightarrow> double \<Rightarrow> NumStruct" where
  "perturb rnd ns i subtract m =
     (let v = (if subtract then d_sub (ns ! i) m else d_add (ns ! i) m)
      in ns[i := (if rnd then truncate_toward_zero v else v)])"

text \<open>
  The engine's state after \<open>k\<close> draws of a distribution, and the \<open>k\<close>-th of these
  successive draws (counted from zero). \<open>redraws ud g n\<close>: of the successive draws from
  state \<open>g\<close>, the first \<open>n\<close> are exactly zero and the next one is not.
\<close>

definition engine_after :: "('g \<Rightarrow> double \<times> 'g) \<Rightarrow> nat \<Rightarrow> 'g \<Rightarrow> 'g" where
  "engine_after ud k g = ((\<lambda>g. snd (ud g)) ^^ k) g"

definition kth_draw :: "('g \<Rightarrow> double \<times> 'g) \<Rightarrow> 'g \<Rightarrow> nat \<Rightarrow> double" where
  "kth_draw ud g k = fst (ud (engine_after ud k g))"

definition redraws :: "('g \<Rightarrow> double \<times> 'g) \<Rightarrow> 'g \<Rightarrow> nat \<Rightarrow> bool" where
  "redraws ud g n = ((\<forall>k<n. kth_draw ud g k = Fin 0) \<and> kth_draw ud g n \<noteq> Fin 0)"

text \<open>
  One perturbation step, by the draws it makes from the state \<open>s\<close>: the first \<open>size_t\<close>
  draw picks the index \<open>i\<close>, the second picks subtraction (odd) or addition (even), and
  the magnitude \<open>m\<close> is the first of the successive \<open>double\<close> draws that is not zero,
  the zero draws before it being redrawn. The step leaves the assignment \<open>ns'\<close> and the
  state \<open>s'\<close>, in which only the engine has moved, past all these draws.
\<close>

definition perturbation ::
  "'g extern \<Rightarrow> config \<Rightarrow> NumStruct \<Rightarrow> 'g fuzzer \<Rightarrow> nat \<Rightarrow> bool \<Rightarrow> nat \<Rightarrow> double \<Rightarrow>
     NumStruct \<Rightarrow> 'g fuzzer \<Rightarrow> bool" where
  "perturbation ext cfg ns s i subtract n m ns' s' =
     (case unifSizeT ext (prng s) of (x, g1) \<Rightarrow>
      case unifSizeT ext g1 of (y, g2) \<Rightarrow>
        i = x mod NumNumbers cfg \<and> subtract = (y mod 2 = 1) \<and>
        redraws (unifDouble ext) g2 n \<and> m = kth_draw (unifDouble ext) g2 n \<and>
        ns' = perturb (round_flag cfg) ns i subtract m \<and>
        s' = s\<lparr>prng := engine_after (unifDouble ext) (Suc n) g2\<rparr>)"

text \<open>Three perturbation steps in a row, each from where the one before it ended.\<close>

definition three_perturbations ::
  "'g extern \<Rightarrow> config \<Rightarrow> NumStruct \<Rightarrow> 'g fuzzer \<Rightarrow> NumStruct \<Rightarrow> 'g fuzzer \<Rightarrow> bool" where
  "three_perturbations ext cfg base s0 ns' s' =
     (\<exists>i1 b1 k1 m1 n1 s1 i2 b2 k2 m2 n2 s2 i3 b3 k3 m3.
        perturbation ext cfg base s0 i1 b1 k1 m1 n1 s1 \<and>
        perturbation ext cfg n1 s1 i2 b2 k2 m2 n2 s2 \<and>
        perturbation ext cfg n2 s2 i3 b3 k3 m3 ns' s')"

text \<open>
  A value has zero fractional part when \<open>std::modf\<close> says so. All values of an
  assignment, and all assignments of a corpus of the right length, are integral.
\<close>

definition integral :: "double \<Rightarrow> bool" where
  "integral v = (fst (d_modf v) = Fin 0)"

definition integral_corpus :: "config \<Rightarrow> 'g fuzzer \<Rightarrow> bool" where
  "integral_corpus cfg s =
     list_all (\<lambda>ns. length ns = NumNumbers cfg \<and> list_all integral ns) (corpus s)"

text \<open>
  A finite double; a corpus of finite assignments of the right length; and an evaluator
  for which both expressions, where they compile, have a finite value at every finite
  assignment.
\<close>

fun finite_double :: "double \<Rightarrow> bool" where
  "finite_double (Fin x) = True"
| "finite_double _ = False"

definition finite_corpus :: "config \<Rightarrow> 'g fuzzer \<Rightarrow> bool" where
  "finite_corpus cfg s =
     list_all (\<lambda>ns. length ns = NumNumbers cfg \<and> list_all finite_double ns) (corpus s)"

definition finite_results :: "'g extern \<Rightarrow> config \<Rightarrow> bool" where
  "finite_results ext cfg =
     (\<forall>e \<in> {expr1 cfg, expr2 cfg}. \<forall>f ns. parser_compile ext e = Inr f \<longrightarrow>
        length ns = NumNumbers cfg \<longrightarrow> list_all finite_double ns \<longrightarrow> finite_double (f ns))"

text \<open>The best difference is unset, a NaN, or at least zero; and: unset or at least zero.\<close>

definition best_not_negative :: "'g fuzzer \<Rightarrow> bool" where
  "best_not_negative s = (case diff s of None \<Rightarrow> True | Some d \<Rightarrow> d = NaN \<or> d_ge d (Fin 0))"

definition best_at_least_zero :: "'g fuzzer \<Rightarrow> bool" where
  "best_at_least_zero s = (case diff s of None \<Rightarrow> True | Some d \<Rightarrow> d_ge d (Fin 0))"

text \<open>A finite corpus together with a best difference that is unset or at least zero.\<close>

definition finite_search :: "config \<Rightarrow> 'g fuzzer \<Rightarrow> bool" where
  "finite_search cfg s = (finite_corpus cfg s \<and> best_at_least_zero s)"

section \<open>Concrete instances of the libraries and of the fuzzer\<close>

text \<open>
  For evaluating the model on concrete runs. Two engines: one reads its draws from two
  scripts (the \<open>size_t\<close> draws and the \<open>double\<close> draws; \<open>0\<close> and \<open>1.0\<close> once a script
  is used up), the other counts its \<open>size_t\<close> draws up from its state and draws the same
  \<open>double\<close> every time. A parser that knows a handful of texts and rejects every other
  one. Formatters that print zero as \<open>0\<close> and nothing else legibly.
\<close>

type_synonym script = "nat list \<times> double list"

definition script_sizeT :: "script \<Rightarrow> nat \<times> script" where
  "script_sizeT g = (case fst g of [] \<Rightarrow> (0, g) | x # xs \<Rightarrow> (x, (xs, snd g)))"

definition script_double :: "script \<Rightarrow> double \<times> script" where
  "script_double g = (case snd g of [] \<Rightarrow> (Fin 1, g) | d # ds \<Rightarrow> (d, (fst g, ds)))"

definition table_compile :: "string \<Rightarrow> string + (NumStruct \<Rightarrow> double)" where
  "table_compile e =
     (if e = ''a'' then Inr (\<lambda>ns. ns ! 0)
      else if e = ''0'' then Inr (\<lambda>ns. Fin 0)
      else if e = ''1'' then Inr (\<lambda>ns. Fin 1)
      else if e = ''0/0'' then Inr (\<lambda>ns. NaN)
      else Inl ''ERR'')"

definition bench_ext :: "script extern" where
  "bench_ext =
     \<lparr>parser_compile = table_compile, unifSizeT = script_sizeT, unifDouble = script_double,
      show_double = (\<lambda>d. if d = Fin 0 then ''0'' else ''?''), show_size_t = (\<lambda>n. ''#'')\<rparr>"

definition steady_ext :: "double \<Rightarrow> nat extern" where
  "steady_ext d =
     \<lparr>parser_compile = table_compile, unifSizeT = (\<lambda>g. (g, Suc g)),
      unifDouble = (\<lambda>g. (d, Suc g)),
      show_double = (\<lambda>d. if d = Fin 0 then ''0'' else ''?''), show_size_t = (\<lambda>n. ''#'')\<rparr>"

text \<open>One variable, \<open>a == 0\<close>, no conditions, round mode by default; and three runs of it.\<close>

definition cfg_a0 :: config where
  "cfg_a0 = EquationFuzzer_default 1 ''a'' ''0'' []"

text \<open>The draws 50.5, 20, 7.7 are added to the seed; then 30, 30, 10 are subtracted from 77.\<close>

definition run_77_7 :: "script fuzzer" where
  "run_77_7 = constructed cfg_a0
     ([0, 0, 0, 0, 0, 0, 0, 1, 0, 1, 0, 1, 0, 1],
      [Fin (101 / 2), Fin 20, Fin (77 / 10), Fin 30, Fin 30, Fin 10])"

text \<open>A run on \<open>a == 0\<close> whose three draws are all below one in size.\<close>

definition run_zero :: "script fuzzer" where
  "run_zero = constructed cfg_a0 ([], [Fin (1 / 2), Fin (1 / 3), Fin (- 1 / 4)])"


text \<open>
  One variable and three conditions: the first holds, the second is false, the third
  does not compile.
\<close>

definition cfg_guarded :: config where
  "cfg_guarded = EquationFuzzer_default 1 ''a'' ''0'' [''1'', ''0'', ''('']"

definition run_guarded :: "script fuzzer" where
  "run_guarded = constructed cfg_guarded ([], [Fin 5, Fin 6, Fin 7])"

text \<open>One variable, a condition that holds, and a first expression that does not compile.\<close>

definition cfg_broken :: config where
  "cfg_broken = EquationFuzzer_default 1 ''('' ''0'' [''1'']"

text \<open>One variable and a first expression whose value is a NaN.\<close>

definition cfg_nan :: config where
  "cfg_nan = EquationFuzzer_default 1 ''0/0'' ''0'' []"

text \<open>
  The command line \<open>fuzz "(" "0" "0"\<close>: the first expression does not compile, and the
  one condition is false for every candidate.
\<close>

definition argv_broken :: "string list" where
  "argv_broken = [''fuzz'', ''('', ''0'', ''0'']"

text \<open>The command line \<open>fuzz "a" "0"\<close>.\<close>

definition argv_a0 :: "string list" where
  "argv_a0 = [''fuzz'', ''a'', ''0'']"

section \<open>Basic facts\<close>

lemma emit_fields [simp]:
  "iter (emit e s) = iter s" "prng (emit e s) = prng s" "corpus (emit e s) = corpus s"
  "diff (emit e s) = diff s" "events (emit e s) = events s @ [e]"
  by (simp_all add: emit_def)

lemma calc_Returns:
  "calc ext e ns s = Returns v s' \<longleftrightarrow>
     (\<exists>f. parser_compile ext e = Inr f \<and> v = f ns \<and> s' = emit (ParserCompile e) s)"
  by (auto simp: calc_def Let_def split: sum.splits)

lemma calc_Exits:
  "calc ext e ns s = Exits c s' \<longleftrightarrow>
     (\<exists>err. parser_compile ext e = Inl err \<and> c = 1 \<and>
        s' = emit (ErrorReport err e) (emit (ParserCompile e) s))"
  by (auto simp: calc_def Let_def split: sum.splits)

lemma frame_refl [simp]: "frame s s"
  by (simp add: frame_def)

lemma calc_frame:
  "calc ext e ns s = Returns v s' \<Longrightarrow> frame s s'"
  "calc ext e ns s = Exits c s' \<Longrightarrow> frame s s'"
  by (auto simp: calc_Returns calc_Exits frame_def acceptances_def)

lemma frame_trans: "frame s s1 \<Longrightarrow> frame s1 s2 \<Longrightarrow> frame s s2"
  by (simp add: frame_def)

lemma test_conditions_frame:
  "test_conditions ext cs ns s = Returns b s' \<Longrightarrow> frame s s'"
  "test_conditions ext cs ns s = Exits c s' \<Longrightarrow> frame s s'"
proof (induction cs arbitrary: s)
  case Nil
  { case 1 then show ?case by simp }
  { case 2 then show ?case by simp }
next
  case (Cons C Cs)
  { case 1 then show ?case
      using Cons.IH(1) calc_frame(1) [of ext C ns s]
      by (auto split: result.splits if_splits intro: frame_trans) }
  { case 2 then show ?case
      using Cons.IH(2) calc_frame [of ext C ns s]
      by (auto split: result.splits if_splits intro: frame_trans) }
qed

lemma drew_trans: "drew s s1 \<Longrightarrow> drew s1 s2 \<Longrightarrow> drew s s2"
  by (simp add: drew_def)

lemma draw_size_t_drew: "draw_size_t ext s = (x, s') \<Longrightarrow> drew s s'"
  by (auto simp: draw_size_t_def drew_def split: prod.splits)

lemma getRandomDouble_drew: "getRandomDouble ext s = Some (r, s') \<Longrightarrow> drew s s'"
  by (auto simp: getRandomDouble_def drew_def split: option.splits prod.splits)

lemma mutate_body_drew: "mutate_body ext cfg ns s = Some (ns', s') \<Longrightarrow> drew s s'"
  by (auto simp: mutate_body_def Let_def split: prod.splits option.splits
       dest!: draw_size_t_drew getRandomDouble_drew intro: drew_trans)

lemma mutate_for_drew: "mutate_for ext cfg n ns s = Some (ns', s') \<Longrightarrow> drew s s'"
proof (induction n arbitrary: ns s)
  case 0
  then show ?case by (simp add: drew_def)
next
  case (Suc n)
  then show ?case
    by (auto split: option.splits dest!: mutate_body_drew intro: drew_trans)
qed

lemma mutate_drew: "mutate ext cfg s = Some (ns', s') \<Longrightarrow> drew s s'"
  by (auto simp: mutate_def getStatic_def split: option.splits if_splits prod.splits
       dest!: draw_size_t_drew mutate_for_drew intro: drew_trans)

lemma numStructToDiff_Returns:
  "numStructToDiff ext cfg ns s = Returns (curDiff, res1, res2) s' \<longleftrightarrow>
     (\<exists>f1 f2. parser_compile ext (expr1 cfg) = Inr f1 \<and> parser_compile ext (expr2 cfg) = Inr f2 \<and>
        res1 = f1 ns \<and> res2 = f2 ns \<and>
        curDiff = d_abs (if d_gt res1 res2 then d_sub res1 res2 else d_sub res2 res1) \<and>
        s' = (emit (ParserCompile (expr2 cfg)) (emit (ParserCompile (expr1 cfg)) s))
               \<lparr>iter := iter s + 1\<rparr>)"
  by (auto simp: numStructToDiff_def calc_def Let_def split: sum.splits)

lemma numStructToDiff_Exits:
  "numStructToDiff ext cfg ns s = Exits c s' \<Longrightarrow> frame s s' \<and> c = 1"
  by (auto simp: numStructToDiff_def calc_def Let_def frame_def acceptances_def
      split: sum.splits)

lemma decide_accept:
  assumes "improves curDiff (diff s)"
  shows "corpus (state_of (decide ext cfg ns curDiff res1 res2 s)) = corpus s @ [ns]"
    and "diff (state_of (decide ext cfg ns curDiff res1 res2 s)) = Some curDiff"
    and "iter (state_of (decide ext cfg ns curDiff res1 res2 s)) = iter s"
    and "prng (state_of (decide ext cfg ns curDiff res1 res2 s)) = prng s"
    and "acceptances (state_of (decide ext cfg ns curDiff res1 res2 s)) = acceptances s + 1"
  using assms by (auto simp: decide_def improves_def Let_def acceptances_def)

lemma decide_reject:
  "\<not> improves curDiff (diff s) \<Longrightarrow> decide ext cfg ns curDiff res1 res2 s = Continue s"
  by (auto simp: decide_def improves_def)

lemma decide_status:
  "decide ext cfg ns curDiff res1 res2 s = Exit c s' \<longleftrightarrow> False"
  "(\<exists>s'. decide ext cfg ns curDiff res1 res2 s = Return s') \<longleftrightarrow>
     (improves curDiff (diff s) \<and> curDiff = Fin 0)"
  by (auto simp: decide_def improves_def Let_def)

text \<open>The ways through one round.\<close>

lemma cycle_Some:
  assumes "cycle ext cfg s = Some st"
  obtains
    (cond_exit) ns s1 c s2 where "mutate ext cfg s = Some (ns, s1)"
      "test_conditions ext (conditions cfg) ns s1 = Exits c s2" "st = Exit c s2"
  | (cond_fail) ns s1 s2 where "mutate ext cfg s = Some (ns, s1)"
      "test_conditions ext (conditions cfg) ns s1 = Returns True s2" "st = Continue s2"
  | (score_exit) ns s1 s2 c s3 where "mutate ext cfg s = Some (ns, s1)"
      "test_conditions ext (conditions cfg) ns s1 = Returns False s2"
      "numStructToDiff ext cfg ns s2 = Exits c s3" "st = Exit c s3"
  | (scored) ns s1 s2 curDiff res1 res2 s3 where "mutate ext cfg s = Some (ns, s1)"
      "test_conditions ext (conditions cfg) ns s1 = Returns False s2"
      "numStructToDiff ext cfg ns s2 = Returns (curDiff, res1, res2) s3"
      "st = decide ext cfg ns curDiff res1 res2 s3"
  using assms
  by (auto simp: cycle_def split: option.splits result.splits if_splits prod.splits)

lemma frame_kept: "frame s s' \<Longrightarrow> kept s s'"
  by (simp add: frame_def kept_def)

lemma drew_kept: "drew s s' \<Longrightarrow> kept s s'"
  by (simp add: drew_def kept_def acceptances_def)

lemma kept_trans: "kept s s1 \<Longrightarrow> kept s1 s2 \<Longrightarrow> kept s s2"
  by (simp add: kept_def)

lemma numStructToDiff_kept:
  "numStructToDiff ext cfg ns s = Returns r s' \<Longrightarrow> kept s s'"
  by (cases r) (auto simp: numStructToDiff_Returns kept_def acceptances_def)

lemma d_lt_trans: "d_lt a b \<Longrightarrow> d_lt b c \<Longrightarrow> d_lt a c"
  by (cases a; cases b; cases c) simp_all

lemma d_lt_irrefl: "\<not> d_lt a a"
  by (cases a) simp_all

lemma improves_the: "improves curDiff best \<longleftrightarrow> (best = None \<or> d_lt curDiff (the best))"
  by (cases best) (auto simp: improves_def)

text \<open>One round either keeps corpus and best difference, or accepts its candidate.\<close>

lemma cycle_effect:
  assumes "cycle ext cfg s = Some st"
  shows "kept s (state_of st) \<or>
         (\<exists>ns d. corpus (state_of st) = corpus s @ [ns] \<and> diff (state_of st) = Some d \<and>
            improves d (diff s) \<and> acceptances (state_of st) = acceptances s + 1)"
  using assms
proof (cases rule: cycle_Some)
  case (cond_exit ns s1 c s2)
  then show ?thesis
    by (auto dest!: mutate_drew test_conditions_frame(2) drew_kept frame_kept intro: kept_trans)
next
  case (cond_fail ns s1 s2)
  then show ?thesis
    by (auto dest!: mutate_drew test_conditions_frame(1) drew_kept frame_kept intro: kept_trans)
next
  case (score_exit ns s1 s2 c s3)
  then have "kept s s1" "kept s1 s2" "kept s2 s3"
    by (auto dest!: mutate_drew test_conditions_frame(1) numStructToDiff_Exits
          drew_kept frame_kept)
  with score_exit show ?thesis
    by (auto intro: kept_trans)
next
  case (scored ns s1 s2 curDiff res1 res2 s3)
  then have k: "kept s s3"
    by (auto dest!: mutate_drew test_conditions_frame(1) numStructToDiff_kept
          drew_kept frame_kept intro: kept_trans)
  show ?thesis
  proof (cases "improves curDiff (diff s3)")
    case True
    with k scored(4) decide_accept [OF True, of ext cfg ns res1 res2] show ?thesis
      by (auto simp: kept_def)
  next
    case False
    with k scored(4) show ?thesis
      by (simp add: decide_reject)
  qed
qed

lemma cycles_Suc_Some:
  assumes "cycles ext cfg (Suc n) s = Some st"
  obtains st1 where "cycle ext cfg s = Some st1" "\<not> is_Continue st1" "st = st1"
  | s1 where "cycle ext cfg s = Some (Continue s1)" "cycles ext cfg n s1 = Some st"
proof -
  from assms obtain st1 where c: "cycle ext cfg s = Some st1"
    by (auto split: option.splits)
  show thesis
  proof (cases "is_Continue st1")
    case True
    then obtain s1 where "st1 = Continue s1" by (cases st1) auto
    with c assms show ?thesis by (intro that(2) [of s1]) auto
  next
    case False
    with c assms show ?thesis by (intro that(1) [of st1]) auto
  qed
qed

lemma cycles_add:
  "cycles ext cfg i s = Some (Continue si) \<Longrightarrow>
   cycles ext cfg (i + k) s = cycles ext cfg k si"
proof (induction i arbitrary: s)
  case 0
  then show ?case by simp
next
  case (Suc i)
  from Suc.prems show ?case
  proof (cases rule: cycles_Suc_Some)
    case (1 st1)
    then show ?thesis by (cases st1) auto
  next
    case (2 s1)
    with Suc.IH [OF 2(2)] show ?thesis by simp
  qed
qed

lemma lowered_trans: "lowered a b \<Longrightarrow> lowered b c \<Longrightarrow> lowered a c"
  by (auto simp: lowered_def intro: d_lt_trans)

lemma cycle_lowered:
  "cycle ext cfg s = Some st \<Longrightarrow> diff (state_of st) = diff s \<or> lowered (diff s) (diff (state_of st))"
  by (drule cycle_effect) (auto simp: kept_def lowered_def improves_def)

lemma cycles_lowered:
  "cycles ext cfg n s = Some st \<Longrightarrow>
   diff (state_of st) = diff s \<or> lowered (diff s) (diff (state_of st))"
proof (induction n arbitrary: s)
  case 0
  then show ?case by auto
next
  case (Suc n)
  from Suc.prems show ?case
  proof (cases rule: cycles_Suc_Some)
    case (1 st1)
    then show ?thesis using cycle_lowered by blast
  next
    case (2 s1)
    from cycle_lowered [OF 2(1)] Suc.IH [OF 2(2)] show ?thesis
      by (auto intro: lowered_trans)
  qed
qed

lemma cycles_corpus:
  "cycles ext cfg n s = Some st \<Longrightarrow>
   prefix (corpus s) (corpus (state_of st)) \<and>
   length (corpus (state_of st)) + acceptances s = length (corpus s) + acceptances (state_of st)"
proof (induction n arbitrary: s)
  case 0
  then show ?case by auto
next
  case (Suc n)
  have step: "prefix (corpus s) (corpus (state_of st1)) \<and>
      length (corpus (state_of st1)) + acceptances s = length (corpus s) + acceptances (state_of st1)"
    if "cycle ext cfg s = Some st1" for st1
    using cycle_effect [OF that] by (auto simp: kept_def)
  from Suc.prems show ?case
  proof (cases rule: cycles_Suc_Some)
    case (1 st1)
    then show ?thesis using step by blast
  next
    case (2 s1)
    from step [OF 2(1)] Suc.IH [OF 2(2)] show ?thesis
      by (auto intro: prefix_order.trans)
  qed
qed

section \<open>The acceptance rule\<close>

text \<open>
  C1. A candidate that passed every condition and was scored is accepted (appended to the
  corpus, its difference becoming the best one) exactly when no best difference is set
  yet or its difference is strictly smaller than the best one; otherwise corpus and best
  difference stay as they are, so a tie is rejected. Hence between any two points of a
  run the best difference is either unchanged or has become a strictly smaller value,
  and once set it is never unset.
\<close>

theorem best_difference_strictly_decreasing:
  "(\<forall>ns s1 s2 curDiff res1 res2 s3.
      mutate ext cfg s = Some (ns, s1) \<longrightarrow>
      test_conditions ext (conditions cfg) ns s1 = Returns False s2 \<longrightarrow>
      numStructToDiff ext cfg ns s2 = Returns (curDiff, res1, res2) s3 \<longrightarrow>
      (\<exists>st. cycle ext cfg s = Some st \<and>
         (if diff s = None \<or> d_lt curDiff (the (diff s))
          then diff (state_of st) = Some curDiff \<and> corpus (state_of st) = corpus s @ [ns]
          else diff (state_of st) = diff s \<and> corpus (state_of st) = corpus s)))
   \<and> (\<forall>i k si st.
        cycles ext cfg i s = Some (Continue si) \<longrightarrow> cycles ext cfg (i + k) s = Some st \<longrightarrow>
        diff (state_of st) = diff si \<or>
        (\<exists>d'. diff (state_of st) = Some d' \<and>
           (diff si = None \<or> (\<exists>d. diff si = Some d \<and> d_lt d' d))))"
proof (intro conjI allI impI)
  fix ns s1 s2 curDiff res1 res2 s3
  assume m: "mutate ext cfg s = Some (ns, s1)"
    and t: "test_conditions ext (conditions cfg) ns s1 = Returns False s2"
    and n: "numStructToDiff ext cfg ns s2 = Returns (curDiff, res1, res2) s3"
  let ?st = "decide ext cfg ns curDiff res1 res2 s3"
  have c: "cycle ext cfg s = Some ?st"
    using m t n by (simp add: cycle_def)
  have k: "kept s s3"
    using m t n
    by (auto dest!: mutate_drew test_conditions_frame(1) numStructToDiff_kept
          drew_kept frame_kept intro: kept_trans)
  show "\<exists>st. cycle ext cfg s = Some st \<and>
         (if diff s = None \<or> d_lt curDiff (the (diff s))
          then diff (state_of st) = Some curDiff \<and> corpus (state_of st) = corpus s @ [ns]
          else diff (state_of st) = diff s \<and> corpus (state_of st) = corpus s)"
  proof (cases "improves curDiff (diff s3)")
    case True
    with k c decide_accept [OF True, of ext cfg ns res1 res2] show ?thesis
      by (auto simp: kept_def improves_the)
  next
    case False
    with k c show ?thesis
      by (auto simp: decide_reject kept_def improves_the)
  qed
next
  fix i k si st
  assume "cycles ext cfg i s = Some (Continue si)" and "cycles ext cfg (i + k) s = Some st"
  then have "cycles ext cfg k si = Some st"
    by (simp add: cycles_add)
  from cycles_lowered [OF this]
  show "diff (state_of st) = diff si \<or>
        (\<exists>d'. diff (state_of st) = Some d' \<and>
           (diff si = None \<or> (\<exists>d. diff si = Some d \<and> d_lt d' d)))"
    by (simp add: lowered_def)
qed


text \<open>
  The statement above on a run of two rounds on \<open>a == 0\<close> with one variable: the first
  candidate, 77, is accepted because no difference is known yet, and the second, 7,
  because it is smaller.
\<close>

theorem best_difference_strictly_decreasing_witness:
  "(\<exists>st. cycle bench_ext cfg_a0 run_77_7 = Some st \<and> diff (state_of st) = Some (Fin 77) \<and>
      corpus (state_of st) = [[Fin 0], [Fin 77]])
   \<and> (\<exists>si st. cycles bench_ext cfg_a0 1 run_77_7 = Some (Continue si) \<and>
         cycles bench_ext cfg_a0 (1 + 1) run_77_7 = Some st \<and>
         diff si = Some (Fin 77) \<and> diff (state_of st) = Some (Fin 7))"
proof -
  note T = best_difference_strictly_decreasing [of bench_ext cfg_a0 run_77_7]
  define s1 where "s1 = run_77_7\<lparr>prng := ([1, 0, 1, 0, 1, 0, 1], [Fin 30, Fin 30, Fin 10])\<rparr>"
  define s3 where "s3 = s1\<lparr>iter := 1, events := [ParserCompile ''a'', ParserCompile ''0'']\<rparr>"
  define sA where "sA = s3\<lparr>corpus := [[Fin 0], [Fin 77]], diff := Some (Fin 77),
    events := [ParserCompile ''a'', ParserCompile ''0'',
               ProgressReport ''#'' ''#'' ''a=?'' ''?'' ''0'' ''?'']\<rparr>"
  have m: "mutate bench_ext cfg_a0 run_77_7 = Some ([Fin 77], s1)"
    unfolding s1_def by code_simp
  have t: "test_conditions bench_ext (conditions cfg_a0) [Fin 77] s1 = Returns False s1"
    unfolding s1_def by code_simp
  have n: "numStructToDiff bench_ext cfg_a0 [Fin 77] s1 = Returns (Fin 77, Fin 77, Fin 0) s3"
    unfolding s3_def s1_def by code_simp
  have d0: "diff run_77_7 = None" and c0: "corpus run_77_7 = [[Fin 0]]"
    by (simp_all add: run_77_7_def constructed_def cfg_a0_def EquationFuzzer_default_def
          EquationFuzzer_def)
  from T [THEN conjunct1, rule_format, OF m t n] d0 c0
  have first: "\<exists>st. cycle bench_ext cfg_a0 run_77_7 = Some st \<and>
      diff (state_of st) = Some (Fin 77) \<and> corpus (state_of st) = [[Fin 0], [Fin 77]]"
    by simp
  have c1: "cycles bench_ext cfg_a0 1 run_77_7 = Some (Continue sA)"
    unfolding sA_def s3_def s1_def by code_simp
  define sB where "sB = sA\<lparr>iter := 2, prng := ([], []),
    corpus := [[Fin 0], [Fin 77], [Fin 7]], diff := Some (Fin 7),
    events := [ParserCompile ''a'', ParserCompile ''0'',
               ProgressReport ''#'' ''#'' ''a=?'' ''?'' ''0'' ''?'',
               ParserCompile ''a'', ParserCompile ''0'',
               ProgressReport ''#'' ''#'' ''a=?'' ''?'' ''0'' ''?'']\<rparr>"
  have c2: "cycles bench_ext cfg_a0 (1 + 1) run_77_7 = Some (Continue sB)"
    unfolding sB_def sA_def s3_def s1_def by code_simp
  have d2: "diff (state_of (Continue sB)) = Some (Fin 7)"
    by (simp add: sB_def)
  have dA: "diff sA = Some (Fin 77)"
    by (simp add: sA_def)
  from T [THEN conjunct2, rule_format, OF c1 c2] c1 c2 d2 dA
  have "\<exists>si st. cycles bench_ext cfg_a0 1 run_77_7 = Some (Continue si) \<and>
         cycles bench_ext cfg_a0 (1 + 1) run_77_7 = Some st \<and>
         diff si = Some (Fin 77) \<and> diff (state_of st) = Some (Fin 7)"
    by blast
  with first show ?thesis by blast
qed

section \<open>Leaving the loop\<close>

lemma cycles_Fuzz_loop:
  "cycles ext cfg n s = Some st \<Longrightarrow> \<not> is_Continue st \<Longrightarrow> Fuzz_loop ext cfg s = Some st"
proof (induction n arbitrary: s)
  case 0
  then show ?case by auto
next
  case (Suc n)
  from Suc.prems(1) show ?case
  proof (cases rule: cycles_Suc_Some)
    case (1 st1)
    with Suc.prems(2) show ?thesis
      by (subst Fuzz_loop.simps) simp
  next
    case (2 s1)
    from Suc.IH [OF 2(2) Suc.prems(2)] 2(1) show ?thesis
      by (subst Fuzz_loop.simps) simp
  qed
qed

lemma Fuzz_loop_cycles:
  assumes "Fuzz_loop ext cfg s = Some st"
  shows "\<exists>n sn. cycles ext cfg n s = Some (Continue sn) \<and> cycle ext cfg sn = Some st \<and>
           \<not> is_Continue st"
proof (rule Fuzz_loop.raw_induct
    [where P = "\<lambda>ext cfg s st. \<exists>n sn. cycles ext cfg n s = Some (Continue sn) \<and>
       cycle ext cfg sn = Some st \<and> \<not> is_Continue st", OF _ assms])
  fix F :: "'a extern \<Rightarrow> config \<Rightarrow> 'a fuzzer \<Rightarrow> 'a status option"
  fix ext cfg s st
  assume IH: "\<And>e c s y. F e c s = Some y \<Longrightarrow>
      \<exists>n sn. cycles e c n s = Some (Continue sn) \<and> cycle e c sn = Some y \<and> \<not> is_Continue y"
  assume body: "(case cycle ext cfg s of None \<Rightarrow> None
      | Some st \<Rightarrow> if is_Continue st then F ext cfg (state_of st) else Some st) = Some st"
  from body obtain st1 where c: "cycle ext cfg s = Some st1"
    by (auto split: option.splits)
  show "\<exists>n sn. cycles ext cfg n s = Some (Continue sn) \<and> cycle ext cfg sn = Some st \<and>
           \<not> is_Continue st"
  proof (cases "is_Continue st1")
    case True
    then obtain s1 where s1: "st1 = Continue s1" by (cases st1) auto
    with body c have "F ext cfg s1 = Some st" by simp
    from IH [OF this] obtain n sn where
      "cycles ext cfg n s1 = Some (Continue sn)" "cycle ext cfg sn = Some st" "\<not> is_Continue st"
      by blast
    with c s1 have "cycles ext cfg (Suc n) s = Some (Continue sn)" by simp
    with \<open>cycle ext cfg sn = Some st\<close> \<open>\<not> is_Continue st\<close> show ?thesis by blast
  next
    case False
    with body c have "st = st1" by simp
    with c False have "cycles ext cfg 0 s = Some (Continue s) \<and> cycle ext cfg s = Some st \<and>
           \<not> is_Continue st" by simp
    then show ?thesis by blast
  qed
qed

lemma cycles_then_cycle:
  "cycles ext cfg n s = Some (Continue sn) \<Longrightarrow> cycle ext cfg sn = Some st \<Longrightarrow>
   cycles ext cfg (n + 1) s = Some (if is_Continue st then Continue (state_of st) else st)"
  using cycles_add [of ext cfg n s sn "Suc 0"] by (cases st) auto

lemma decide_Return:
  "decide ext cfg ns curDiff res1 res2 s = Return s' \<longleftrightarrow>
     improves curDiff (diff s) \<and> curDiff = Fin 0 \<and>
     s' = emit (SolutionReport (expr1 cfg) (expr2 cfg) (conditions cfg)
                  (toString ext cfg ns '','') (toScript ext cfg ns))
            (emit (ProgressReport (show_size_t ext (iter s))
                     (show_size_t ext (length (corpus s) + 1)) (toString ext cfg ns '','')
                     (show_double ext res1) (show_double ext res2) (show_double ext curDiff))
               (s\<lparr>corpus := corpus s @ [ns], diff := Some curDiff\<rparr>))"
  by (auto simp: decide_def improves_def Let_def emit_def)

lemma scored_kept:
  assumes "mutate ext cfg s = Some (ns, s1)"
    and "test_conditions ext (conditions cfg) ns s1 = Returns False s2"
    and "numStructToDiff ext cfg ns s2 = Returns (curDiff, res1, res2) s3"
  shows "kept s s3" and "cycle ext cfg s = Some (decide ext cfg ns curDiff res1 res2 s3)"
proof -
  from assms show "kept s s3"
    by (auto dest!: mutate_drew test_conditions_frame(1) numStructToDiff_kept
          drew_kept frame_kept intro: kept_trans)
  from assms show "cycle ext cfg s = Some (decide ext cfg ns curDiff res1 res2 s3)"
    by (simp add: cycle_def)
qed

lemma cycle_Return_iff:
  "cycle ext cfg s = Some (Return s') \<longleftrightarrow>
     (\<exists>ns s1 s2 res1 res2 s3. mutate ext cfg s = Some (ns, s1) \<and>
        test_conditions ext (conditions cfg) ns s1 = Returns False s2 \<and>
        numStructToDiff ext cfg ns s2 = Returns (Fin 0, res1, res2) s3 \<and>
        (diff s = None \<or> d_lt (Fin 0) (the (diff s))) \<and>
        s' = emit (SolutionReport (expr1 cfg) (expr2 cfg) (conditions cfg)
                     (toString ext cfg ns '','') (toScript ext cfg ns))
               (emit (ProgressReport (show_size_t ext (iter s3))
                        (show_size_t ext (length (corpus s3) + 1)) (toString ext cfg ns '','')
                        (show_double ext res1) (show_double ext res2) (show_double ext (Fin 0)))
                  (s3\<lparr>corpus := corpus s3 @ [ns], diff := Some (Fin 0)\<rparr>)))"
  (is "?L \<longleftrightarrow> ?R")
proof
  assume ?L
  then show ?R
  proof (cases rule: cycle_Some)
    case (scored ns s1 s2 curDiff res1 res2 s3)
    note k = scored_kept(1) [OF scored(1-3)]
    from scored(4) have d: "decide ext cfg ns curDiff res1 res2 s3 = Return s'"
      by simp
    from d [unfolded decide_Return] k scored(1-3)
    have "mutate ext cfg s = Some (ns, s1) \<and>
        test_conditions ext (conditions cfg) ns s1 = Returns False s2 \<and>
        numStructToDiff ext cfg ns s2 = Returns (Fin 0, res1, res2) s3 \<and>
        (diff s = None \<or> d_lt (Fin 0) (the (diff s))) \<and>
        s' = emit (SolutionReport (expr1 cfg) (expr2 cfg) (conditions cfg)
                     (toString ext cfg ns '','') (toScript ext cfg ns))
               (emit (ProgressReport (show_size_t ext (iter s3))
                        (show_size_t ext (length (corpus s3) + 1)) (toString ext cfg ns '','')
                        (show_double ext res1) (show_double ext res2) (show_double ext (Fin 0)))
                  (s3\<lparr>corpus := corpus s3 @ [ns], diff := Some (Fin 0)\<rparr>))"
      by (auto simp: kept_def improves_the)
    then show ?thesis by blast
  qed auto
next
  assume ?R
  then obtain ns s1 s2 res1 res2 s3 where
    m: "mutate ext cfg s = Some (ns, s1)"
    and t: "test_conditions ext (conditions cfg) ns s1 = Returns False s2"
    and n: "numStructToDiff ext cfg ns s2 = Returns (Fin 0, res1, res2) s3"
    and i: "diff s = None \<or> d_lt (Fin 0) (the (diff s))"
    and s': "s' = emit (SolutionReport (expr1 cfg) (expr2 cfg) (conditions cfg)
                     (toString ext cfg ns '','') (toScript ext cfg ns))
               (emit (ProgressReport (show_size_t ext (iter s3))
                        (show_size_t ext (length (corpus s3) + 1)) (toString ext cfg ns '','')
                        (show_double ext res1) (show_double ext res2) (show_double ext (Fin 0)))
                  (s3\<lparr>corpus := corpus s3 @ [ns], diff := Some (Fin 0)\<rparr>))"
    by blast
  note k = scored_kept [OF m t n]
  from k(1) i have "improves (Fin 0) (diff s3)"
    by (simp add: kept_def improves_the)
  with s' have "decide ext cfg ns (Fin 0) res1 res2 s3 = Return s'"
    by (simp add: decide_Return)
  with k(2) show ?L by simp
qed

lemma test_conditions_Exits:
  "test_conditions ext cs ns s = Exits c s' \<Longrightarrow>
   c = 1 \<and> (\<exists>err e. e \<in> set cs \<and> parser_compile ext e = Inl err \<and>
            last (events s') = ErrorReport err e)"
proof (induction cs arbitrary: s)
  case Nil
  then show ?case by simp
next
  case (Cons C Cs)
  show ?case
  proof (cases "calc ext C ns s")
    case (Returns v s1)
    with Cons.prems have "test_conditions ext Cs ns s1 = Exits c s'"
      by (auto split: if_splits)
    from Cons.IH [OF this] show ?thesis by auto
  next
    case (Exits c1 s1)
    with Cons.prems have "calc ext C ns s = Exits c s'" by simp
    then show ?thesis by (auto simp: calc_Exits)
  qed
qed

lemma numStructToDiff_Exits_report:
  "numStructToDiff ext cfg ns s = Exits c s' \<Longrightarrow>
   c = 1 \<and> (\<exists>err e. e \<in> {expr1 cfg, expr2 cfg} \<and> parser_compile ext e = Inl err \<and>
            last (events s') = ErrorReport err e)"
  by (auto simp: numStructToDiff_def calc_def Let_def split: sum.splits)

lemma cycle_Exit:
  assumes "cycle ext cfg s = Some (Exit c s')"
  shows "c = 1 \<and> (\<exists>err e. e \<in> set (conditions cfg) \<union> {expr1 cfg, expr2 cfg} \<and>
           parser_compile ext e = Inl err \<and> last (events s') = ErrorReport err e)"
  using assms
proof (cases rule: cycle_Some)
  case (cond_exit ns s1 c1 s2)
  with test_conditions_Exits [OF cond_exit(2)] show ?thesis by auto
next
  case (score_exit ns s1 s2 c1 s3)
  with numStructToDiff_Exits_report [OF score_exit(3)] show ?thesis by auto
next
  case (scored ns s1 s2 curDiff res1 res2 s3)
  from scored(4) [symmetric] show ?thesis by (simp add: decide_status(1))
qed auto

text \<open>
  C2, as amended. A round of the loop returns from \<open>Fuzz\<close> exactly when its candidate
  passed the conditions, was scored with difference exactly 0.0 and was accepted; the
  solution report is then the last thing written. A round whose candidate fails a
  condition, or is scored and rejected, or is accepted with a difference other than 0.0,
  goes on to the next round. So \<open>Fuzz\<close> returns exactly when some round accepts a
  difference of 0.0, and the only other way a run of the loop ends is \<open>exit(1)\<close> in
  \<open>calc\<close>, after the error report for a text that does not compile.
\<close>

theorem loop_returns_iff_zero_difference:
  "(\<forall>s'. cycle ext cfg s = Some (Return s') \<longleftrightarrow>
       (\<exists>ns s1 s2 res1 res2 s3. mutate ext cfg s = Some (ns, s1) \<and>
          test_conditions ext (conditions cfg) ns s1 = Returns False s2 \<and>
          numStructToDiff ext cfg ns s2 = Returns (Fin 0, res1, res2) s3 \<and>
          (diff s = None \<or> d_lt (Fin 0) (the (diff s))) \<and>
          s' = emit (SolutionReport (expr1 cfg) (expr2 cfg) (conditions cfg)
                       (toString ext cfg ns '','') (toScript ext cfg ns))
                 (emit (ProgressReport (show_size_t ext (iter s3))
                          (show_size_t ext (length (corpus s3) + 1)) (toString ext cfg ns '','')
                          (show_double ext res1) (show_double ext res2) (show_double ext (Fin 0)))
                    (s3\<lparr>corpus := corpus s3 @ [ns], diff := Some (Fin 0)\<rparr>))))
   \<and> (\<forall>ns s1 s2. mutate ext cfg s = Some (ns, s1) \<longrightarrow>
          test_conditions ext (conditions cfg) ns s1 = Returns True s2 \<longrightarrow>
          cycle ext cfg s = Some (Continue s2))
   \<and> (\<forall>ns s1 s2 curDiff res1 res2 s3. mutate ext cfg s = Some (ns, s1) \<longrightarrow>
          test_conditions ext (conditions cfg) ns s1 = Returns False s2 \<longrightarrow>
          numStructToDiff ext cfg ns s2 = Returns (curDiff, res1, res2) s3 \<longrightarrow>
          \<not> (improves curDiff (diff s) \<and> curDiff = Fin 0) \<longrightarrow>
          (\<exists>s'. cycle ext cfg s = Some (Continue s')))
   \<and> (\<forall>s'. Fuzz_loop ext cfg s = Some (Return s') \<longleftrightarrow>
          (\<exists>n sn. cycles ext cfg n s = Some (Continue sn) \<and>
             cycle ext cfg sn = Some (Return s')))
   \<and> (\<forall>st. Fuzz_loop ext cfg s = Some st \<longrightarrow>
          (\<exists>s'. st = Return s' \<and> diff s' = Some (Fin 0)) \<or>
          (\<exists>s' err e. st = Exit 1 s' \<and> parser_compile ext e = Inl err \<and>
             last (events s') = ErrorReport err e))"
proof (intro conjI allI impI)
  fix s'
  show "cycle ext cfg s = Some (Return s') \<longleftrightarrow>
       (\<exists>ns s1 s2 res1 res2 s3. mutate ext cfg s = Some (ns, s1) \<and>
          test_conditions ext (conditions cfg) ns s1 = Returns False s2 \<and>
          numStructToDiff ext cfg ns s2 = Returns (Fin 0, res1, res2) s3 \<and>
          (diff s = None \<or> d_lt (Fin 0) (the (diff s))) \<and>
          s' = emit (SolutionReport (expr1 cfg) (expr2 cfg) (conditions cfg)
                       (toString ext cfg ns '','') (toScript ext cfg ns))
                 (emit (ProgressReport (show_size_t ext (iter s3))
                          (show_size_t ext (length (corpus s3) + 1)) (toString ext cfg ns '','')
                          (show_double ext res1) (show_double ext res2) (show_double ext (Fin 0)))
                    (s3\<lparr>corpus := corpus s3 @ [ns], diff := Some (Fin 0)\<rparr>)))"
    by (rule cycle_Return_iff)
next
  fix ns s1 s2
  assume "mutate ext cfg s = Some (ns, s1)"
    and "test_conditions ext (conditions cfg) ns s1 = Returns True s2"
  then show "cycle ext cfg s = Some (Continue s2)"
    by (simp add: cycle_def)
next
  fix ns s1 s2 curDiff res1 res2 s3
  assume m: "mutate ext cfg s = Some (ns, s1)"
    and t: "test_conditions ext (conditions cfg) ns s1 = Returns False s2"
    and n: "numStructToDiff ext cfg ns s2 = Returns (curDiff, res1, res2) s3"
    and z: "\<not> (improves curDiff (diff s) \<and> curDiff = Fin 0)"
  note k = scored_kept [OF m t n]
  from z k(1) have "\<not> (improves curDiff (diff s3) \<and> curDiff = Fin 0)"
    by (simp add: kept_def)
  then have "\<forall>sR. decide ext cfg ns curDiff res1 res2 s3 \<noteq> Return sR"
    using decide_status(2) [of ext cfg ns curDiff res1 res2 s3] by blast
  moreover have "\<forall>c sE. decide ext cfg ns curDiff res1 res2 s3 \<noteq> Exit c sE"
    by (simp add: decide_status(1))
  ultimately obtain sC where "decide ext cfg ns curDiff res1 res2 s3 = Continue sC"
    by (cases "decide ext cfg ns curDiff res1 res2 s3") auto
  with k(2) show "\<exists>s'. cycle ext cfg s = Some (Continue s')"
    by simp
next
  fix s'
  show "Fuzz_loop ext cfg s = Some (Return s') \<longleftrightarrow>
          (\<exists>n sn. cycles ext cfg n s = Some (Continue sn) \<and>
             cycle ext cfg sn = Some (Return s'))"
  proof
    assume "Fuzz_loop ext cfg s = Some (Return s')"
    from Fuzz_loop_cycles [OF this] show "\<exists>n sn. cycles ext cfg n s = Some (Continue sn) \<and>
             cycle ext cfg sn = Some (Return s')"
      by blast
  next
    assume "\<exists>n sn. cycles ext cfg n s = Some (Continue sn) \<and>
             cycle ext cfg sn = Some (Return s')"
    then obtain n sn where "cycles ext cfg n s = Some (Continue sn)"
      and "cycle ext cfg sn = Some (Return s')" by blast
    from cycles_then_cycle [OF this] have "cycles ext cfg (n + 1) s = Some (Return s')"
      by simp
    from cycles_Fuzz_loop [OF this] show "Fuzz_loop ext cfg s = Some (Return s')"
      by simp
  qed
next
  fix st
  assume "Fuzz_loop ext cfg s = Some st"
  from Fuzz_loop_cycles [OF this] obtain n sn where
    c: "cycle ext cfg sn = Some st" and nc: "\<not> is_Continue st"
    by blast
  show "(\<exists>s'. st = Return s' \<and> diff s' = Some (Fin 0)) \<or>
          (\<exists>s' err e. st = Exit 1 s' \<and> parser_compile ext e = Inl err \<and>
             last (events s') = ErrorReport err e)"
  proof (cases st)
    case (Continue s1)
    with nc show ?thesis by simp
  next
    case (Return s1)
    with c have "cycle ext cfg sn = Some (Return s1)" by simp
    then have "diff s1 = Some (Fin 0)"
      unfolding cycle_Return_iff by auto
    with Return show ?thesis by simp
  next
    case (Exit c1 s1)
    with c cycle_Exit [of ext cfg sn c1 s1] show ?thesis by auto
  qed
qed

text \<open>The run whose first candidate is 0: the loop returns in its first round.\<close>

theorem loop_returns_iff_zero_difference_witness:
  "\<exists>s'. Fuzz_loop bench_ext cfg_a0 run_zero = Some (Return s') \<and>
      cycle bench_ext cfg_a0 run_zero = Some (Return s') \<and>
      diff s' = Some (Fin 0) \<and> corpus s' = [[Fin 0], [Fin 0]] \<and>
      last (events s') =
        SolutionReport ''a'' ''0'' [] ''a=0'' (''a=0'' @ newline @ ''a == 0'' @ newline)"
proof -
  note T = loop_returns_iff_zero_difference [of bench_ext cfg_a0 run_zero]
  define sR where "sR = run_zero\<lparr>iter := 1, prng := ([], []), corpus := [[Fin 0], [Fin 0]],
    diff := Some (Fin 0),
    events := [ParserCompile ''a'', ParserCompile ''0'',
      ProgressReport ''#'' ''#'' ''a=0'' ''0'' ''0'' ''0'',
      SolutionReport ''a'' ''0'' [] ''a=0'' (''a=0'' @ newline @ ''a == 0'' @ newline)]\<rparr>"
  have c0: "cycles bench_ext cfg_a0 0 run_zero = Some (Continue run_zero)"
    by simp
  have c: "cycle bench_ext cfg_a0 run_zero = Some (Return sR)"
    unfolding sR_def by code_simp
  from T have "Fuzz_loop bench_ext cfg_a0 run_zero = Some (Return sR) \<longleftrightarrow>
      (\<exists>n sn. cycles bench_ext cfg_a0 n run_zero = Some (Continue sn) \<and>
         cycle bench_ext cfg_a0 sn = Some (Return sR))"
    by blast
  with c0 c have F: "Fuzz_loop bench_ext cfg_a0 run_zero = Some (Return sR)"
    by blast
  from T F have "diff sR = Some (Fin 0)"
    by blast
  moreover have "corpus sR = [[Fin 0], [Fin 0]]"
    and "last (events sR) =
        SolutionReport ''a'' ''0'' [] ''a=0'' (''a=0'' @ newline @ ''a == 0'' @ newline)"
    by (simp_all add: sR_def)
  ultimately show ?thesis using F c by blast
qed

text \<open>
  One condition that holds and a first expression that does not compile: the loop is
  left in its first round through \<open>exit(1)\<close>, no candidate having been accepted.
\<close>

theorem loop_exit_counterexample:
  "Fuzz_loop (steady_ext (Fin (5 / 2))) cfg_broken (constructed cfg_broken 0) =
     Some (Exit 1 ((constructed cfg_broken 0)\<lparr>prng := 10,
       events := [ParserCompile ''1'', ParserCompile ''('', ErrorReport ''ERR'' ''('']\<rparr>)) \<and>
   diff ((constructed cfg_broken (0::nat))\<lparr>prng := 10,
       events := [ParserCompile ''1'', ParserCompile ''('', ErrorReport ''ERR'' ''('']\<rparr>) = None"
  by (rule conjI; code_simp)

section \<open>The corpus\<close>

text \<open>
  C3. The constructor leaves a corpus of exactly one element, \<open>NumNumbers\<close> zeros. After
  any number of rounds from there the corpus is not empty and has one element more than
  there were accepted improvements. From any state, the corpus after some rounds has the
  corpus before as a prefix (nothing is removed or changed), and one round either leaves
  it alone or appends exactly one element, which is when an improvement is accepted.
\<close>

theorem corpus_seeded_and_append_only:
  "corpus (constructed cfg g0) = [replicate (NumNumbers cfg) (Fin 0)] \<and>
   (\<forall>n st. cycles ext cfg n (constructed cfg g0) = Some st \<longrightarrow>
      corpus (state_of st) \<noteq> [] \<and>
      length (corpus (state_of st)) = 1 + acceptances (state_of st)) \<and>
   (\<forall>s n st. cycles ext cfg n s = Some st \<longrightarrow> prefix (corpus s) (corpus (state_of st))) \<and>
   (\<forall>s st. cycle ext cfg s = Some st \<longrightarrow>
      (corpus (state_of st) = corpus s \<and> acceptances (state_of st) = acceptances s) \<or>
      (\<exists>ns. corpus (state_of st) = corpus s @ [ns] \<and>
         acceptances (state_of st) = acceptances s + 1))"
proof (intro conjI allI impI)
  show "corpus (constructed cfg g0) = [replicate (NumNumbers cfg) (Fin 0)]"
    by (simp add: constructed_def)
next
  fix n st
  assume "cycles ext cfg n (constructed cfg g0) = Some st"
  from cycles_corpus [OF this]
  show "corpus (state_of st) \<noteq> []"
    and "length (corpus (state_of st)) = 1 + acceptances (state_of st)"
    by (auto simp: constructed_def acceptances_def)
next
  fix s n st
  assume "cycles ext cfg n s = Some st"
  from cycles_corpus [OF this] show "prefix (corpus s) (corpus (state_of st))"
    by simp
next
  fix s st
  assume "cycle ext cfg s = Some st"
  from cycle_effect [OF this]
  show "(corpus (state_of st) = corpus s \<and> acceptances (state_of st) = acceptances s) \<or>
      (\<exists>ns. corpus (state_of st) = corpus s @ [ns] \<and>
         acceptances (state_of st) = acceptances s + 1)"
    by (auto simp: kept_def)
qed

text \<open>Two accepted improvements: three elements, the seed first.\<close>

theorem corpus_seeded_and_append_only_witness:
  "\<exists>st. cycles bench_ext cfg_a0 2 run_77_7 = Some st \<and>
      corpus (state_of st) = [[Fin 0], [Fin 77], [Fin 7]] \<and>
      acceptances (state_of st) = 2 \<and>
      prefix (corpus run_77_7) (corpus (state_of st))"
proof -
  note T = corpus_seeded_and_append_only [of cfg_a0
      "([0, 0, 0, 0, 0, 0, 0, 1, 0, 1, 0, 1, 0, 1],
        [Fin (101 / 2), Fin 20, Fin (77 / 10), Fin 30, Fin 30, Fin 10])" bench_ext,
      folded run_77_7_def]
  define sB where "sB = run_77_7\<lparr>iter := 2, prng := ([], []),
    corpus := [[Fin 0], [Fin 77], [Fin 7]], diff := Some (Fin 7),
    events := [ParserCompile ''a'', ParserCompile ''0'',
               ProgressReport ''#'' ''#'' ''a=?'' ''?'' ''0'' ''?'',
               ParserCompile ''a'', ParserCompile ''0'',
               ProgressReport ''#'' ''#'' ''a=?'' ''?'' ''0'' ''?'']\<rparr>"
  have c2: "cycles bench_ext cfg_a0 2 run_77_7 = Some (Continue sB)"
    unfolding sB_def by code_simp
  have cB: "corpus (state_of (Continue sB)) = [[Fin 0], [Fin 77], [Fin 7]]"
    by (simp add: sB_def)
  from T c2 have "length (corpus (state_of (Continue sB))) = 1 + acceptances (state_of (Continue sB))"
    and "prefix (corpus run_77_7) (corpus (state_of (Continue sB)))"
    by blast+
  with cB have "acceptances (state_of (Continue sB)) = 2"
    and "prefix (corpus run_77_7) (corpus (state_of (Continue sB)))"
    by simp_all
  with c2 cB show ?thesis by blast
qed

section \<open>The condition filter\<close>

lemma evaluated_Cons:
  "evaluated ext ns (C # Cs) = (if cond_holds ext ns C then C # evaluated ext ns Cs else [C])"
  by (simp add: evaluated_def)

lemma test_conditions_compiled:
  assumes "list_all (compiles ext) (take 1 (dropWhile (cond_holds ext ns) cs))"
  shows "test_conditions ext cs ns s =
           Returns (\<not> list_all (cond_holds ext ns) cs)
             (s\<lparr>events := events s @ map ParserCompile (evaluated ext ns cs)\<rparr>)"
  using assms
proof (induction cs arbitrary: s)
  case Nil
  then show ?case by (simp add: evaluated_def)
next
  case (Cons C Cs)
  show ?case
  proof (cases "cond_holds ext ns C")
    case True
    then obtain e where e: "parser_compile ext C = Inr e" "e ns = Fin 1"
      by (auto simp: cond_holds_def split: sum.splits)
    from True Cons.prems have "list_all (compiles ext) (take 1 (dropWhile (cond_holds ext ns) Cs))"
      by simp
    from Cons.IH [OF this] e True show ?thesis
      by (simp add: calc_def Let_def emit_def evaluated_Cons)
  next
    case False
    with Cons.prems have "compiles ext C" by simp
    then obtain e where e: "parser_compile ext C = Inr e"
      by (auto simp: compiles_def split: sum.splits)
    with False have "e ns \<noteq> Fin 1"
      by (simp add: cond_holds_def)
    with e False show ?thesis
      by (simp add: calc_def Let_def emit_def evaluated_Cons)
  qed
qed

text \<open>
  C4. The conditions are evaluated in order against the candidate, and evaluation stops
  at the first one whose value is not exactly 1.0: the texts handed to the parser are
  those up to and including that one, and nothing after it is looked at (it need not
  even compile). The candidate passes exactly when every condition evaluates to 1.0. A
  candidate that fails a condition ends its round without being scored: the iteration
  counter, the corpus and the best difference are as before the round, and only the
  evaluated conditions were handed to the evaluator. A candidate that passes is scored,
  which counts one iteration.
\<close>

theorem conditions_filter_candidates:
  "(\<forall>ns s. list_all (compiles ext) (take 1 (dropWhile (cond_holds ext ns) cs)) \<longrightarrow>
      test_conditions ext cs ns s =
        Returns (\<not> list_all (cond_holds ext ns) cs)
          (s\<lparr>events := events s @ map ParserCompile (evaluated ext ns cs)\<rparr>))
   \<and> (\<forall>s ns s1.
        mutate ext cfg s = Some (ns, s1) \<longrightarrow>
        list_all (compiles ext) (take 1 (dropWhile (cond_holds ext ns) (conditions cfg))) \<longrightarrow>
        \<not> list_all (cond_holds ext ns) (conditions cfg) \<longrightarrow>
        (\<exists>s'. cycle ext cfg s = Some (Continue s') \<and>
           iter s' = iter s \<and> corpus s' = corpus s \<and> diff s' = diff s \<and>
           events s' = events s @ map ParserCompile (evaluated ext ns (conditions cfg))))
   \<and> (\<forall>s ns s1 st.
        mutate ext cfg s = Some (ns, s1) \<longrightarrow>
        list_all (cond_holds ext ns) (conditions cfg) \<longrightarrow>
        cycle ext cfg s = Some st \<longrightarrow>
        (\<exists>c. st = Exit c (state_of st)) \<or> iter (state_of st) = iter s + 1)"
proof (intro conjI allI impI)
  fix ns and s :: "'a fuzzer"
  assume "list_all (compiles ext) (take 1 (dropWhile (cond_holds ext ns) cs))"
  then show "test_conditions ext cs ns s =
        Returns (\<not> list_all (cond_holds ext ns) cs)
          (s\<lparr>events := events s @ map ParserCompile (evaluated ext ns cs)\<rparr>)"
    by (rule test_conditions_compiled)
next
  fix s ns s1
  assume m: "mutate ext cfg s = Some (ns, s1)"
    and c: "list_all (compiles ext) (take 1 (dropWhile (cond_holds ext ns) (conditions cfg)))"
    and f: "\<not> list_all (cond_holds ext ns) (conditions cfg)"
  let ?s2 = "s1\<lparr>events := events s1 @ map ParserCompile (evaluated ext ns (conditions cfg))\<rparr>"
  from test_conditions_compiled [OF c] f
  have t: "test_conditions ext (conditions cfg) ns s1 = Returns True ?s2"
    by simp
  with m have "cycle ext cfg s = Some (Continue ?s2)"
    by (simp add: cycle_def)
  moreover from mutate_drew [OF m]
  have "iter ?s2 = iter s \<and> corpus ?s2 = corpus s \<and> diff ?s2 = diff s \<and>
           events ?s2 = events s @ map ParserCompile (evaluated ext ns (conditions cfg))"
    by (simp add: drew_def)
  ultimately show "\<exists>s'. cycle ext cfg s = Some (Continue s') \<and>
           iter s' = iter s \<and> corpus s' = corpus s \<and> diff s' = diff s \<and>
           events s' = events s @ map ParserCompile (evaluated ext ns (conditions cfg))"
    by blast
next
  fix s ns s1 st
  assume m: "mutate ext cfg s = Some (ns, s1)"
    and h: "list_all (cond_holds ext ns) (conditions cfg)"
    and c: "cycle ext cfg s = Some st"
  from h have d: "dropWhile (cond_holds ext ns) (conditions cfg) = []"
    by (simp add: list_all_iff)
  have "list_all (compiles ext) (take 1 (dropWhile (cond_holds ext ns) (conditions cfg)))"
    unfolding d by simp
  from test_conditions_compiled [OF this] h obtain s2 where
    t: "test_conditions ext (conditions cfg) ns s1 = Returns False s2" and i2: "iter s2 = iter s1"
    by simp
  from mutate_drew [OF m] have i1: "iter s1 = iter s" by (simp add: drew_def)
  show "(\<exists>c. st = Exit c (state_of st)) \<or> iter (state_of st) = iter s + 1"
  proof (cases "numStructToDiff ext cfg ns s2")
    case (Exits c1 s3)
    with m t c have "st = Exit c1 s3" by (simp add: cycle_def)
    then show ?thesis by simp
  next
    case (Returns r s3)
    obtain curDiff res1 res2 where r: "r = (curDiff, res1, res2)" by (cases r) auto
    with Returns have n: "numStructToDiff ext cfg ns s2 = Returns (curDiff, res1, res2) s3"
      by simp
    then have i3: "iter s3 = iter s2 + 1"
      by (auto simp: numStructToDiff_Returns)
    from m t n c have st: "st = decide ext cfg ns curDiff res1 res2 s3"
      by (simp add: cycle_def)
    have "iter (state_of (decide ext cfg ns curDiff res1 res2 s3)) = iter s3"
      by (cases "improves curDiff (diff s3)") (simp_all add: decide_accept(3) decide_reject)
    with st i1 i2 i3 show ?thesis by simp
  qed
qed

text \<open>The candidate 18 fails the second condition; the third is never compiled.\<close>

theorem conditions_filter_candidates_witness:
  "\<exists>s'. cycle bench_ext cfg_guarded run_guarded = Some (Continue s') \<and>
      iter s' = 0 \<and> corpus s' = [[Fin 0]] \<and> diff s' = None \<and>
      events s' = [ParserCompile ''1'', ParserCompile ''0'']"
proof -
  note T = conditions_filter_candidates [of bench_ext "conditions cfg_guarded" cfg_guarded]
  define s1 where "s1 = run_guarded\<lparr>prng := ([], [])\<rparr>"
  have m: "mutate bench_ext cfg_guarded run_guarded = Some ([Fin 18], s1)"
    unfolding s1_def by code_simp
  have c: "list_all (compiles bench_ext)
      (take 1 (dropWhile (cond_holds bench_ext [Fin 18]) (conditions cfg_guarded)))"
    by code_simp
  have f: "\<not> list_all (cond_holds bench_ext [Fin 18]) (conditions cfg_guarded)"
    by code_simp
  have e: "evaluated bench_ext [Fin 18] (conditions cfg_guarded) = [''1'', ''0'']"
    by code_simp
  have i: "iter run_guarded = 0" "corpus run_guarded = [[Fin 0]]" "diff run_guarded = None"
    "events run_guarded = []"
    by (simp_all add: run_guarded_def constructed_def cfg_guarded_def
          EquationFuzzer_default_def EquationFuzzer_def)
  from T [THEN conjunct2, THEN conjunct1, rule_format, OF m c f] e i
  show ?thesis by simp
qed

section \<open>The mutation\<close>

lemma getRandomDouble_loop_Some:
  assumes "getRandomDouble_loop ud g = Some y"
  shows "fst y \<noteq> Fin 0 \<and> (\<exists>g0. ud g0 = y)"
proof (rule getRandomDouble_loop.raw_induct
    [where P = "\<lambda>ud g y. fst y \<noteq> Fin 0 \<and> (\<exists>g0. ud g0 = y)", OF _ assms])
  fix F :: "('a \<Rightarrow> double \<times> 'a) \<Rightarrow> 'a \<Rightarrow> (double \<times> 'a) option"
  fix ud g y
  assume IH: "\<And>ud g y. F ud g = Some y \<Longrightarrow> fst y \<noteq> Fin 0 \<and> (\<exists>g0. ud g0 = y)"
  assume body: "(let (ret, g') = ud g in if ret = Fin 0 then F ud g' else Some (ret, g'))
      = Some y"
  obtain ret g1 where u: "ud g = (ret, g1)" by (cases "ud g")
  show "fst y \<noteq> Fin 0 \<and> (\<exists>g0. ud g0 = y)"
  proof (cases "ret = Fin 0")
    case True
    with body u have "F ud g1 = Some y" by simp
    from IH [OF this] show ?thesis .
  next
    case False
    with body u show ?thesis by auto
  qed
qed

lemma getRandomDouble_loop_ends:
  "fst (ud (((\<lambda>g. snd (ud g)) ^^ n) g)) \<noteq> Fin 0 \<Longrightarrow>
   \<exists>r g'. getRandomDouble_loop ud g = Some (r, g')"
proof (induction n arbitrary: g)
  case 0
  then show ?case
  proof -
    obtain ret g1 where u: "ud g = (ret, g1)" by (cases "ud g")
    with 0 have "ret \<noteq> Fin 0" by simp
    with u show ?thesis
      by (subst getRandomDouble_loop.simps) simp
  qed
next
  case (Suc n)
  obtain ret g1 where u: "ud g = (ret, g1)" by (cases "ud g")
  show ?case
  proof (cases "ret = Fin 0")
    case True
    from Suc.prems u have "fst (ud (((\<lambda>g. snd (ud g)) ^^ n) g1)) \<noteq> Fin 0"
      by (simp add: funpow_Suc_right del: funpow.simps)
    from Suc.IH [OF this] u True show ?thesis
      by (subst getRandomDouble_loop.simps) simp
  next
    case False
    with u show ?thesis
      by (subst getRandomDouble_loop.simps) simp
  qed
qed

lemma getRandomDouble_Some:
  assumes "getRandomDouble ext s = Some (r, s')"
  shows "r \<noteq> Fin 0 \<and> (\<exists>g0. fst (unifDouble ext g0) = r) \<and> drew s s'"
proof -
  from assms obtain g' where l: "getRandomDouble_loop (unifDouble ext) (prng s) = Some (r, g')"
    by (auto simp: getRandomDouble_def split: option.splits)
  from getRandomDouble_loop_Some [OF l] obtain g0 where "unifDouble ext g0 = (r, g')"
    and "r \<noteq> Fin 0" by auto
  then have "fst (unifDouble ext g0) = r" by simp
  with \<open>r \<noteq> Fin 0\<close> getRandomDouble_drew [OF assms] show ?thesis
    by blast
qed

lemma getRandomDouble_ends:
  assumes "redraw_ends ext"
  shows "\<exists>r s'. getRandomDouble ext s = Some (r, s')"
proof -
  from assms obtain n where
    "fst (unifDouble ext (((\<lambda>g. snd (unifDouble ext g)) ^^ n) (prng s))) \<noteq> Fin 0"
    unfolding redraw_ends_def by blast
  from getRandomDouble_loop_ends [of "unifDouble ext" n "prng s", OF this] show ?thesis
    by (auto simp: getRandomDouble_def)
qed

lemma modf_truncates: "d_sub v (fst (d_modf v)) = truncate_toward_zero v"
  by (cases v) (simp_all add: d_sub_def truncate_toward_zero_def)

lemma length_perturb [simp]: "length (perturb rnd ns i b m) = length ns"
  by (simp add: perturb_def Let_def)

text \<open>One round of the \<open>for\<close> loop is one perturbation step.\<close>

lemma mutate_body_perturb:
  assumes "mutate_body ext cfg ns s = Some (ns', s')"
    and "valid_config cfg" and "length ns = NumNumbers cfg"
  shows "\<exists>i b m. ns' = perturb (round_flag cfg) ns i b m \<and> i < NumNumbers cfg \<and>
           m \<noteq> Fin 0 \<and> (\<exists>g0. fst (unifDouble ext g0) = m) \<and> drew s s'"
proof -
  obtain x s1 where d1: "draw_size_t ext s = (x, s1)" by (cases "draw_size_t ext s")
  obtain y s2 where d2: "draw_size_t ext s1 = (y, s2)" by (cases "draw_size_t ext s1")
  from assms(1) d1 d2 obtain r where g: "getRandomDouble ext s2 = Some (r, s')"
    by (auto simp: mutate_body_def Let_def split: option.splits)
  let ?i = "x mod NumNumbers cfg"
  from assms(2) have i: "?i < NumNumbers cfg"
    by (simp add: valid_config_def)
  with assms(3) have il: "?i < length ns" by simp
  from assms(1) d1 d2 g il have "ns' = perturb (round_flag cfg) ns ?i (y mod 2 \<noteq> 0) r"
    by (auto simp: mutate_body_def Let_def perturb_def modf_truncates)
  moreover from getRandomDouble_Some [OF g] draw_size_t_drew [OF d1] draw_size_t_drew [OF d2]
  have "r \<noteq> Fin 0 \<and> (\<exists>g0. fst (unifDouble ext g0) = r) \<and> drew s s'"
    by (auto intro: drew_trans)
  ultimately show ?thesis using i by blast
qed

lemma mutate_body_ends:
  assumes "redraw_ends ext"
  shows "\<exists>ns' s'. mutate_body ext cfg ns s = Some (ns', s')"
proof -
  obtain x s1 where d1: "draw_size_t ext s = (x, s1)" by (cases "draw_size_t ext s")
  obtain y s2 where d2: "draw_size_t ext s1 = (y, s2)" by (cases "draw_size_t ext s1")
  from getRandomDouble_ends [OF assms, of s2] obtain r s3 where
    "getRandomDouble ext s2 = Some (r, s3)" by blast
  with d1 d2 show ?thesis
    by (simp add: mutate_body_def Let_def)
qed

lemma getStatic_Some:
  assumes "getStatic ext s = Some (ns, s1)"
  shows "ns \<in> set (corpus s) \<and> drew s s1"
proof -
  from assms have ne: "corpus s \<noteq> []"
    by (auto simp: getStatic_def split: if_splits)
  obtain x s0 where d: "draw_size_t ext s = (x, s0)" by (cases "draw_size_t ext s")
  with assms ne have "ns = corpus s ! (x mod length (corpus s))" "s1 = s0"
    by (simp_all add: getStatic_def)
  with ne draw_size_t_drew [OF d] show ?thesis by simp
qed

lemma mutate_Some:
  assumes "mutate ext cfg s = Some (ns', s')"
    and "valid_config cfg" and "list_all (\<lambda>ns. length ns = NumNumbers cfg) (corpus s)"
  shows "\<exists>base i1 b1 m1 i2 b2 m2 i3 b3 m3.
      ns' = perturb (round_flag cfg) (perturb (round_flag cfg)
              (perturb (round_flag cfg) base i1 b1 m1) i2 b2 m2) i3 b3 m3 \<and>
      base \<in> set (corpus s) \<and> i1 < NumNumbers cfg \<and> i2 < NumNumbers cfg \<and> i3 < NumNumbers cfg \<and>
      m1 \<noteq> Fin 0 \<and> m2 \<noteq> Fin 0 \<and> m3 \<noteq> Fin 0 \<and>
      (\<exists>g. fst (unifDouble ext g) = m1) \<and> (\<exists>g. fst (unifDouble ext g) = m2) \<and>
      (\<exists>g. fst (unifDouble ext g) = m3) \<and> drew s s'"
proof -
  from assms(1) obtain base s0 where gs: "getStatic ext s = Some (base, s0)"
    and f: "mutate_for ext cfg 3 base s0 = Some (ns', s')"
    by (auto simp: mutate_def split: option.splits)
  from getStatic_Some [OF gs] have b: "base \<in> set (corpus s)" and d0: "drew s s0" by simp_all
  with assms(3) have l0: "length base = NumNumbers cfg"
    by (simp add: list_all_iff)
  from f obtain n1 s1 n2 s2 where
    b1: "mutate_body ext cfg base s0 = Some (n1, s1)"
    and b2: "mutate_body ext cfg n1 s1 = Some (n2, s2)"
    and b3: "mutate_body ext cfg n2 s2 = Some (ns', s')"
    by (auto simp: numeral_3_eq_3 split: option.splits)
  from mutate_body_perturb [OF b1 assms(2) l0] obtain i1 c1 m1 where
    p1: "n1 = perturb (round_flag cfg) base i1 c1 m1" "i1 < NumNumbers cfg" "m1 \<noteq> Fin 0"
      "\<exists>g. fst (unifDouble ext g) = m1" "drew s0 s1"
    by blast
  from p1(1) l0 have l1: "length n1 = NumNumbers cfg" by simp
  from mutate_body_perturb [OF b2 assms(2) l1] obtain i2 c2 m2 where
    p2: "n2 = perturb (round_flag cfg) n1 i2 c2 m2" "i2 < NumNumbers cfg" "m2 \<noteq> Fin 0"
      "\<exists>g. fst (unifDouble ext g) = m2" "drew s1 s2"
    by blast
  from p2(1) l1 have l2: "length n2 = NumNumbers cfg" by simp
  from mutate_body_perturb [OF b3 assms(2) l2] obtain i3 c3 m3 where
    p3: "ns' = perturb (round_flag cfg) n2 i3 c3 m3" "i3 < NumNumbers cfg" "m3 \<noteq> Fin 0"
      "\<exists>g. fst (unifDouble ext g) = m3" "drew s2 s'"
    by blast
  from d0 p1(5) p2(5) p3(5) have d: "drew s s'" by (blast intro: drew_trans)
  have e: "ns' = perturb (round_flag cfg) (perturb (round_flag cfg)
              (perturb (round_flag cfg) base i1 c1 m1) i2 c2 m2) i3 c3 m3"
    by (simp add: p1(1) p2(1) p3(1))
  show ?thesis
    apply (rule exI [of _ base], rule exI [of _ i1], rule exI [of _ c1], rule exI [of _ m1])
    apply (rule exI [of _ i2], rule exI [of _ c2], rule exI [of _ m2])
    apply (rule exI [of _ i3], rule exI [of _ c3], rule exI [of _ m3])
    using e b d p1(2-4) p2(2-4) p3(2-4) apply (intro conjI)
               apply assumption+
    done
qed

lemma mutate_ends:
  assumes "redraw_ends ext" and "corpus s \<noteq> []"
  shows "\<exists>ns' s'. mutate ext cfg s = Some (ns', s')"
proof -
  obtain x s0 where d: "draw_size_t ext s = (x, s0)" by (cases "draw_size_t ext s")
  with assms(2) obtain base where gs: "getStatic ext s = Some (base, s0)"
    by (simp add: getStatic_def)
  from mutate_body_ends [OF assms(1)] obtain n1 s1 where
    b1: "mutate_body ext cfg base s0 = Some (n1, s1)" by blast
  from mutate_body_ends [OF assms(1)] obtain n2 s2 where
    b2: "mutate_body ext cfg n1 s1 = Some (n2, s2)" by blast
  from mutate_body_ends [OF assms(1)] obtain n3 s3 where
    b3: "mutate_body ext cfg n2 s2 = Some (n3, s3)" by blast
  from gs b1 b2 b3 show ?thesis
    by (simp add: mutate_def numeral_3_eq_3)
qed

lemma contract_magnitude:
  "unifDouble_contract ext \<Longrightarrow> fst (unifDouble ext g) = m \<Longrightarrow> m \<noteq> Fin 0 \<Longrightarrow> magnitude m"
  unfolding unifDouble_contract_def magnitude_def by (metis double.inject)


lemma steady_contract:
  "- 100 \<le> x \<Longrightarrow> x < 100 \<Longrightarrow> unifDouble_contract (steady_ext (Fin x))"
  by (simp add: unifDouble_contract_def steady_ext_def)

lemma steady_redraw_ends: "d \<noteq> Fin 0 \<Longrightarrow> redraw_ends (steady_ext d)"
  unfolding redraw_ends_def by (auto intro!: exI [of _ 0] simp: steady_ext_def)

text \<open>
  Why the redraw loop has to meet a draw that is not zero: on a source that only ever
  draws zero, \<open>getRandomDouble\<close> does not return, and so neither does \<open>mutate\<close>.
\<close>

lemma mutate_spins_on_zero_source:
  "mutate (steady_ext (Fin 0)) cfg s = None"
proof -
  have l: "getRandomDouble_loop (unifDouble (steady_ext (Fin 0))) g = None" for g
  proof (cases "getRandomDouble_loop (unifDouble (steady_ext (Fin 0))) g")
    case (Some y)
    from getRandomDouble_loop_Some [OF this] show ?thesis
      by (auto simp: steady_ext_def)
  qed simp
  then have g: "getRandomDouble (steady_ext (Fin 0)) s2 = None" for s2
    by (simp add: getRandomDouble_def)
  then have b: "mutate_body (steady_ext (Fin 0)) cfg ns s1 = None" for ns s1
    by (simp add: mutate_body_def Let_def split: prod.splits)
  show ?thesis
    by (simp add: mutate_def b numeral_3_eq_3 split: option.splits)
qed

text \<open>The successive draws of the redraw loop.\<close>

lemma engine_after_Suc: "engine_after ud (Suc k) g = engine_after ud k (snd (ud g))"
  unfolding engine_after_def by (simp only: funpow_Suc_right o_apply)

lemma kth_draw_0: "kth_draw ud g 0 = fst (ud g)"
  by (simp add: kth_draw_def engine_after_def)

lemma kth_draw_Suc: "kth_draw ud g (Suc k) = kth_draw ud (snd (ud g)) k"
  by (simp add: kth_draw_def engine_after_Suc)

lemma redraws_0: "redraws ud g 0 \<longleftrightarrow> fst (ud g) \<noteq> Fin 0"
  by (simp add: redraws_def kth_draw_0)

lemma redraws_Suc:
  "redraws ud g (Suc n) \<longleftrightarrow> fst (ud g) = Fin 0 \<and> redraws ud (snd (ud g)) n"
proof
  assume r: "redraws ud g (Suc n)"
  then have "kth_draw ud g 0 = Fin 0" by (simp add: redraws_def)
  moreover from r have "\<forall>k<n. kth_draw ud g (Suc k) = Fin 0" and "kth_draw ud g (Suc n) \<noteq> Fin 0"
    by (auto simp: redraws_def)
  ultimately show "fst (ud g) = Fin 0 \<and> redraws ud (snd (ud g)) n"
    by (simp add: redraws_def kth_draw_0 kth_draw_Suc)
next
  assume a: "fst (ud g) = Fin 0 \<and> redraws ud (snd (ud g)) n"
  have "kth_draw ud g k = Fin 0" if "k < Suc n" for k
  proof (cases k)
    case 0
    with a show ?thesis by (simp add: kth_draw_0)
  next
    case (Suc j)
    with that a show ?thesis by (simp add: kth_draw_Suc redraws_def)
  qed
  with a show "redraws ud g (Suc n)"
    by (simp add: redraws_def kth_draw_Suc)
qed


lemma redraws_loop:
  "redraws ud g n \<Longrightarrow>
   getRandomDouble_loop ud g = Some (kth_draw ud g n, engine_after ud (Suc n) g)"
proof (induction n arbitrary: g)
  case 0
  obtain ret g1 where u: "ud g = (ret, g1)" by (cases "ud g")
  with 0 have "ret \<noteq> Fin 0" by (simp add: redraws_0)
  with u show ?case
    by (subst getRandomDouble_loop.simps) (simp add: kth_draw_0 engine_after_def)
next
  case (Suc n)
  obtain ret g1 where u: "ud g = (ret, g1)" by (cases "ud g")
  with Suc.prems have z: "ret = Fin 0" and r: "redraws ud g1 n"
    by (simp_all add: redraws_Suc)
  from Suc.IH [OF r] u z show ?case
    by (subst getRandomDouble_loop.simps) (simp add: kth_draw_Suc engine_after_Suc)
qed

lemma loop_redraws:
  assumes "getRandomDouble_loop ud g = Some y"
  shows "\<exists>n. redraws ud g n \<and> y = (kth_draw ud g n, engine_after ud (Suc n) g)"
proof (rule getRandomDouble_loop.raw_induct
    [where P = "\<lambda>ud g y. \<exists>n. redraws ud g n \<and> y = (kth_draw ud g n, engine_after ud (Suc n) g)",
      OF _ assms])
  fix F :: "('a \<Rightarrow> double \<times> 'a) \<Rightarrow> 'a \<Rightarrow> (double \<times> 'a) option"
  fix ud g y
  assume IH: "\<And>ud g y. F ud g = Some y \<Longrightarrow>
      \<exists>n. redraws ud g n \<and> y = (kth_draw ud g n, engine_after ud (Suc n) g)"
  assume body: "(let (ret, g') = ud g in if ret = Fin 0 then F ud g' else Some (ret, g'))
      = Some y"
  obtain ret g1 where u: "ud g = (ret, g1)" by (cases "ud g")
  show "\<exists>n. redraws ud g n \<and> y = (kth_draw ud g n, engine_after ud (Suc n) g)"
  proof (cases "ret = Fin 0")
    case True
    with body u have "F ud g1 = Some y" by simp
    from IH [OF this] obtain n where "redraws ud g1 n"
      and "y = (kth_draw ud g1 n, engine_after ud (Suc n) g1)"
      by blast
    with u True have "redraws ud g (Suc n) \<and>
        y = (kth_draw ud g (Suc n), engine_after ud (Suc (Suc n)) g)"
      by (simp add: redraws_Suc kth_draw_Suc engine_after_Suc)
    then show ?thesis by blast
  next
    case False
    with body u have "redraws ud g 0 \<and> y = (kth_draw ud g 0, engine_after ud (Suc 0) g)"
      by (auto simp: redraws_0 kth_draw_0 engine_after_def)
    then show ?thesis by blast
  qed
qed

text \<open>\<open>getRandomDouble\<close> returns the first draw that is not zero, if there is one.\<close>

lemma getRandomDouble_iff:
  "getRandomDouble ext s = Some (m, s') \<longleftrightarrow>
     (\<exists>n. redraws (unifDouble ext) (prng s) n \<and> m = kth_draw (unifDouble ext) (prng s) n \<and>
          s' = s\<lparr>prng := engine_after (unifDouble ext) (Suc n) (prng s)\<rparr>)"
proof
  assume "getRandomDouble ext s = Some (m, s')"
  then obtain g' where l: "getRandomDouble_loop (unifDouble ext) (prng s) = Some (m, g')"
    and s': "s' = s\<lparr>prng := g'\<rparr>"
    by (auto simp: getRandomDouble_def split: option.splits)
  from loop_redraws [OF l] s' show "\<exists>n. redraws (unifDouble ext) (prng s) n \<and>
      m = kth_draw (unifDouble ext) (prng s) n \<and>
      s' = s\<lparr>prng := engine_after (unifDouble ext) (Suc n) (prng s)\<rparr>"
    by auto
next
  assume "\<exists>n. redraws (unifDouble ext) (prng s) n \<and> m = kth_draw (unifDouble ext) (prng s) n \<and>
          s' = s\<lparr>prng := engine_after (unifDouble ext) (Suc n) (prng s)\<rparr>"
  then obtain n where r: "redraws (unifDouble ext) (prng s) n"
    and m: "m = kth_draw (unifDouble ext) (prng s) n"
    and s': "s' = s\<lparr>prng := engine_after (unifDouble ext) (Suc n) (prng s)\<rparr>"
    by blast
  from redraws_loop [OF r] m s' show "getRandomDouble ext s = Some (m, s')"
    by (simp add: getRandomDouble_def)
qed

text \<open>One round of the \<open>for\<close> loop of \<open>mutate\<close> is one perturbation step, and conversely.\<close>

lemma mutate_body_iff:
  assumes "valid_config cfg" and "length ns = NumNumbers cfg"
  shows "mutate_body ext cfg ns s = Some (ns', s') \<longleftrightarrow>
           (\<exists>i b n m. perturbation ext cfg ns s i b n m ns' s')"
proof -
  obtain x g1 where u1: "unifSizeT ext (prng s) = (x, g1)" by (cases "unifSizeT ext (prng s)")
  obtain y g2 where u2: "unifSizeT ext g1 = (y, g2)" by (cases "unifSizeT ext g1")
  let ?s2 = "s\<lparr>prng := g2\<rparr>"
  let ?i = "x mod NumNumbers cfg"
  from assms have il: "?i < length ns"
    by (simp add: valid_config_def)
  have d1: "draw_size_t ext s = (x, s\<lparr>prng := g1\<rparr>)"
    and d2: "draw_size_t ext (s\<lparr>prng := g1\<rparr>) = (y, ?s2)"
    using u1 u2 by (simp_all add: draw_size_t_def)
  have body: "mutate_body ext cfg ns s =
      (case getRandomDouble ext ?s2 of None \<Rightarrow> None
       | Some (r, s3) \<Rightarrow> Some (perturb (round_flag cfg) ns ?i (y mod 2 = 1) r, s3))"
    using d1 d2 il
    by (auto simp: mutate_body_def Let_def perturb_def modf_truncates split: option.splits)
  show ?thesis
  proof
    assume "mutate_body ext cfg ns s = Some (ns', s')"
    with body obtain r where g: "getRandomDouble ext ?s2 = Some (r, s')"
      and n: "ns' = perturb (round_flag cfg) ns ?i (y mod 2 = 1) r"
      by (auto split: option.splits)
    from g obtain n where "redraws (unifDouble ext) g2 n" "r = kth_draw (unifDouble ext) g2 n"
      "s' = s\<lparr>prng := engine_after (unifDouble ext) (Suc n) g2\<rparr>"
      unfolding getRandomDouble_iff by auto
    with u1 u2 n have "perturbation ext cfg ns s ?i (y mod 2 = 1) n r ns' s'"
      unfolding perturbation_def by simp
    then show "\<exists>i b n m. perturbation ext cfg ns s i b n m ns' s'" by blast
  next
    assume "\<exists>i b n m. perturbation ext cfg ns s i b n m ns' s'"
    then obtain i b m n where r: "redraws (unifDouble ext) g2 n"
      and p: "i = ?i" "b = (y mod 2 = 1)" "m = kth_draw (unifDouble ext) g2 n"
        "ns' = perturb (round_flag cfg) ns i b m"
        "s' = s\<lparr>prng := engine_after (unifDouble ext) (Suc n) g2\<rparr>"
      unfolding perturbation_def using u1 u2 by auto
    from r p(3,5) have "getRandomDouble ext ?s2 = Some (m, s')"
      unfolding getRandomDouble_iff by auto
    with body p show "mutate_body ext cfg ns s = Some (ns', s')" by simp
  qed
qed


lemma perturbation_facts:
  assumes "perturbation ext cfg ns s i b n m ns' s'" and "valid_config cfg"
  shows "i < NumNumbers cfg" and "m \<noteq> Fin 0" and "\<exists>g. fst (unifDouble ext g) = m"
    and "ns' = perturb (round_flag cfg) ns i b m" and "drew s s'"
    and "length ns' = length ns"
proof -
  obtain x g1 where u1: "unifSizeT ext (prng s) = (x, g1)" by (cases "unifSizeT ext (prng s)")
  obtain y g2 where u2: "unifSizeT ext g1 = (y, g2)" by (cases "unifSizeT ext g1")
  from assms(1) u1 u2 have
    a: "redraws (unifDouble ext) g2 n" "i = x mod NumNumbers cfg"
      "m = kth_draw (unifDouble ext) g2 n" "ns' = perturb (round_flag cfg) ns i b m"
      "s' = s\<lparr>prng := engine_after (unifDouble ext) (Suc n) g2\<rparr>"
    unfolding perturbation_def by simp_all
  from a(2) assms(2) show "i < NumNumbers cfg" by (simp add: valid_config_def)
  from a(1,3) show "m \<noteq> Fin 0" by (simp add: redraws_def)
  from a(3) show "\<exists>g. fst (unifDouble ext g) = m" by (auto simp: kth_draw_def)
  from a(4) show "ns' = perturb (round_flag cfg) ns i b m" .
  from a(5) show "drew s s'" by (simp add: drew_def)
  from a(4) show "length ns' = length ns" by simp
qed

text \<open>
  \<open>mutate\<close> is: the first \<open>size_t\<close> draw picks the base in the corpus, and three
  perturbation steps follow.
\<close>

lemma mutate_for_three:
  assumes "valid_config cfg" and "length base = NumNumbers cfg"
  shows "mutate_for ext cfg 3 base s0 = Some (ns', s') \<longleftrightarrow>
           three_perturbations ext cfg base s0 ns' s'"
proof
  assume f: "mutate_for ext cfg 3 base s0 = Some (ns', s')"
  then obtain n1 s1 n2 s2 where
    b1: "mutate_body ext cfg base s0 = Some (n1, s1)"
    and b2: "mutate_body ext cfg n1 s1 = Some (n2, s2)"
    and b3: "mutate_body ext cfg n2 s2 = Some (ns', s')"
    by (auto simp: numeral_3_eq_3 split: option.splits)
  from b1 obtain i1 c1 k1 m1 where p1: "perturbation ext cfg base s0 i1 c1 k1 m1 n1 s1"
    unfolding mutate_body_iff [OF assms] by blast
  from perturbation_facts(6) [OF p1 assms(1)] assms(2) have l1: "length n1 = NumNumbers cfg"
    by simp
  from b2 obtain i2 c2 k2 m2 where p2: "perturbation ext cfg n1 s1 i2 c2 k2 m2 n2 s2"
    unfolding mutate_body_iff [OF assms(1) l1] by blast
  from perturbation_facts(6) [OF p2 assms(1)] l1 have l2: "length n2 = NumNumbers cfg"
    by simp
  from b3 obtain i3 c3 k3 m3 where p3: "perturbation ext cfg n2 s2 i3 c3 k3 m3 ns' s'"
    unfolding mutate_body_iff [OF assms(1) l2] by blast
  from p1 p2 p3 show "three_perturbations ext cfg base s0 ns' s'"
    unfolding three_perturbations_def by blast
next
  assume "three_perturbations ext cfg base s0 ns' s'"
  then obtain i1 c1 k1 m1 n1 s1 i2 c2 k2 m2 n2 s2 i3 c3 k3 m3 where
    p1: "perturbation ext cfg base s0 i1 c1 k1 m1 n1 s1"
    and p2: "perturbation ext cfg n1 s1 i2 c2 k2 m2 n2 s2"
    and p3: "perturbation ext cfg n2 s2 i3 c3 k3 m3 ns' s'"
    unfolding three_perturbations_def by blast
  from perturbation_facts(6) [OF p1 assms(1)] assms(2) have l1: "length n1 = NumNumbers cfg"
    by simp
  from perturbation_facts(6) [OF p2 assms(1)] l1 have l2: "length n2 = NumNumbers cfg"
    by simp
  from p1 have b1: "mutate_body ext cfg base s0 = Some (n1, s1)"
    unfolding mutate_body_iff [OF assms] by blast
  from p2 have b2: "mutate_body ext cfg n1 s1 = Some (n2, s2)"
    unfolding mutate_body_iff [OF assms(1) l1] by blast
  from p3 have b3: "mutate_body ext cfg n2 s2 = Some (ns', s')"
    unfolding mutate_body_iff [OF assms(1) l2] by blast
  from b1 b2 b3 show "mutate_for ext cfg 3 base s0 = Some (ns', s')"
    by (simp add: numeral_3_eq_3)
qed

lemma mutate_three:
  assumes "valid_config cfg" and "corpus s \<noteq> []"
    and "list_all (\<lambda>ns. length ns = NumNumbers cfg) (corpus s)"
    and "unifSizeT ext (prng s) = (x0, g0)"
  shows "mutate ext cfg s = Some (ns', s') \<longleftrightarrow>
           three_perturbations ext cfg (corpus s ! (x0 mod length (corpus s)))
             (s\<lparr>prng := g0\<rparr>) ns' s'"
proof -
  let ?base = "corpus s ! (x0 mod length (corpus s))"
  from assms(2) have "?base \<in> set (corpus s)" by simp
  with assms(3) have l: "length ?base = NumNumbers cfg"
    by (simp add: list_all_iff)
  from assms(2,4) have "mutate ext cfg s = mutate_for ext cfg 3 ?base (s\<lparr>prng := g0\<rparr>)"
    by (simp add: mutate_def getStatic_def draw_size_t_def)
  with mutate_for_three [OF assms(1) l] show ?thesis by simp
qed




section \<open>Round mode\<close>

lemma trunc_real_of_int [simp]: "trunc_real (of_int k) = of_int k"
  by (simp add: trunc_real_def)

lemma trunc_real_idem [simp]: "trunc_real (trunc_real x) = trunc_real x"
  by (simp add: trunc_real_def)

lemma integral_truncate: "v \<noteq> NaN \<Longrightarrow> integral (truncate_toward_zero v)"
  by (cases v) (simp_all add: integral_def truncate_toward_zero_def)

lemma integral_not_NaN: "integral v \<Longrightarrow> v \<noteq> NaN"
  by (auto simp: integral_def)

lemma finite_step_not_NaN:
  "v \<noteq> NaN \<Longrightarrow> d_add v (Fin x) \<noteq> NaN \<and> d_sub v (Fin x) \<noteq> NaN"
  by (cases v) (simp_all add: d_sub_def)

lemma perturb_round_slot:
  assumes "i < length ns" and "ns ! i \<noteq> NaN"
  shows "perturb True ns i b (Fin x) =
           ns[i := truncate_toward_zero (if b then d_sub (ns ! i) (Fin x) else d_add (ns ! i) (Fin x))]"
    and "integral (perturb True ns i b (Fin x) ! i)"
  using assms finite_step_not_NaN [of "ns ! i" x]
  by (auto simp: perturb_def Let_def intro: integral_truncate)

lemma perturb_integral:
  assumes "list_all integral ns" and "i < length ns"
  shows "list_all integral (perturb True ns i b (Fin x))"
proof -
  from assms have "integral (ns ! i)"
    by (simp add: list_all_length)
  then have "ns ! i \<noteq> NaN"
    by (rule integral_not_NaN)
  from perturb_round_slot(2) [OF assms(2) this, of b x] assms show ?thesis
    by (auto simp: list_all_length perturb_def Let_def nth_list_update)
qed

lemma contract_finite:
  "unifDouble_contract ext \<Longrightarrow> fst (unifDouble ext g) = m \<Longrightarrow> \<exists>x. m = Fin x"
  unfolding unifDouble_contract_def by metis

lemma mutate_integral:
  assumes "round_flag cfg = True" and "valid_config cfg" and "unifDouble_contract ext"
    and "integral_corpus cfg s" and "mutate ext cfg s = Some (ns', s')"
  shows "length ns' = NumNumbers cfg \<and> list_all integral ns'"
proof -
  from assms(4) have l: "list_all (\<lambda>ns. length ns = NumNumbers cfg) (corpus s)"
    by (simp add: integral_corpus_def list_all_iff)
  from mutate_Some [OF assms(5,2) l] obtain base i1 b1 m1 i2 b2 m2 i3 b3 m3 where
    e: "ns' = perturb (round_flag cfg) (perturb (round_flag cfg)
              (perturb (round_flag cfg) base i1 b1 m1) i2 b2 m2) i3 b3 m3"
    and b: "base \<in> set (corpus s)"
    and i: "i1 < NumNumbers cfg" "i2 < NumNumbers cfg" "i3 < NumNumbers cfg"
    and g: "\<exists>g. fst (unifDouble ext g) = m1" "\<exists>g. fst (unifDouble ext g) = m2"
      "\<exists>g. fst (unifDouble ext g) = m3"
    by blast
  from g assms(3) obtain x1 x2 x3 where m: "m1 = Fin x1" "m2 = Fin x2" "m3 = Fin x3"
    by (blast dest: contract_finite)
  from b assms(4) have b0: "length base = NumNumbers cfg" "list_all integral base"
    by (simp_all add: integral_corpus_def list_all_iff)
  let ?n1 = "perturb True base i1 b1 (Fin x1)"
  let ?n2 = "perturb True ?n1 i2 b2 (Fin x2)"
  from b0 i(1) have n1: "list_all integral ?n1" by (simp add: perturb_integral)
  with b0 i(2) have n2: "list_all integral ?n2" by (simp add: perturb_integral)
  with b0 i(3) have "list_all integral (perturb True ?n2 i3 b3 (Fin x3))"
    by (simp add: perturb_integral)
  with e m assms(1) b0 show ?thesis by simp
qed

lemma cycle_corpus_mutate:
  assumes "cycle ext cfg s = Some st"
  shows "corpus (state_of st) = corpus s \<or>
         (\<exists>ns s1. mutate ext cfg s = Some (ns, s1) \<and> corpus (state_of st) = corpus s @ [ns])"
  using assms
proof (cases rule: cycle_Some)
  case (cond_exit ns s1 c s2)
  then show ?thesis
    by (auto dest!: mutate_drew test_conditions_frame(2) simp: drew_def frame_def)
next
  case (cond_fail ns s1 s2)
  then show ?thesis
    by (auto dest!: mutate_drew test_conditions_frame(1) simp: drew_def frame_def)
next
  case (score_exit ns s1 s2 c s3)
  then show ?thesis
    by (auto dest!: mutate_drew test_conditions_frame(1) numStructToDiff_Exits
          simp: drew_def frame_def)
next
  case (scored ns s1 s2 curDiff res1 res2 s3)
  note k = scored_kept(1) [OF scored(1-3)]
  show ?thesis
  proof (cases "improves curDiff (diff s3)")
    case True
    from decide_accept(1) [OF True, of ext cfg ns res1 res2] k scored(1,4) show ?thesis
      by (simp add: kept_def)
  next
    case False
    with k scored(4) show ?thesis
      by (simp add: decide_reject kept_def)
  qed
qed

lemma cycle_integral:
  assumes "round_flag cfg = True" and "valid_config cfg" and "unifDouble_contract ext"
    and "integral_corpus cfg s" and "cycle ext cfg s = Some st"
  shows "integral_corpus cfg (state_of st)"
  using cycle_corpus_mutate [OF assms(5)]
proof
  assume "corpus (state_of st) = corpus s"
  with assms(4) show ?thesis by (simp add: integral_corpus_def)
next
  assume "\<exists>ns s1. mutate ext cfg s = Some (ns, s1) \<and> corpus (state_of st) = corpus s @ [ns]"
  then obtain ns s1 where m: "mutate ext cfg s = Some (ns, s1)"
    and c: "corpus (state_of st) = corpus s @ [ns]" by blast
  from mutate_integral [OF assms(1-4) m] c assms(4) show ?thesis
    by (simp add: integral_corpus_def)
qed

lemma cycles_integral:
  assumes "round_flag cfg = True" and "valid_config cfg" and "unifDouble_contract ext"
  shows "integral_corpus cfg s \<Longrightarrow> cycles ext cfg n s = Some st \<Longrightarrow>
         integral_corpus cfg (state_of st)"
proof (induction n arbitrary: s)
  case 0
  then show ?case by auto
next
  case (Suc n)
  from Suc.prems(2) show ?case
  proof (cases rule: cycles_Suc_Some)
    case (1 st1)
    with cycle_integral [OF assms Suc.prems(1)] show ?thesis by simp
  next
    case (2 s1)
    from cycle_integral [OF assms Suc.prems(1) 2(1)] have "integral_corpus cfg s1" by simp
    from Suc.IH [OF this 2(2)] show ?thesis .
  qed
qed

lemma constructed_integral: "integral_corpus cfg (constructed cfg g0)"
  by (simp add: integral_corpus_def constructed_def integral_def trunc_real_def
      list_all_length)

lemma trunc_real_char:
  "trunc_real x = of_int k \<longleftrightarrow> \<bar>of_int k :: real\<bar> \<le> \<bar>x\<bar> \<and> \<bar>x - of_int k\<bar> < 1"
proof (cases "0 \<le> x")
  case True
  then have t: "trunc_real x = of_int \<lfloor>x\<rfloor>" by (simp add: trunc_real_def)
  show ?thesis
  proof
    assume "trunc_real x = of_int k"
    with t have k: "k = \<lfloor>x\<rfloor>" by simp
    with True have "0 \<le> k" by simp
    then have "0 \<le> (of_int k :: real)" by simp
    moreover from k have "of_int k \<le> x" "x < of_int k + 1" by linarith+
    ultimately show "\<bar>of_int k :: real\<bar> \<le> \<bar>x\<bar> \<and> \<bar>x - of_int k\<bar> < 1" by simp
  next
    assume a: "\<bar>of_int k :: real\<bar> \<le> \<bar>x\<bar> \<and> \<bar>x - of_int k\<bar> < 1"
    have "0 \<le> k"
    proof (rule ccontr)
      assume "\<not> 0 \<le> k"
      then have "k \<le> - 1" by simp
      then have "(of_int k :: real) \<le> - 1" by (metis of_int_le_iff of_int_minus of_int_1)
      with True a show False by simp
    qed
    then have "0 \<le> (of_int k :: real)" by simp
    with a True have "of_int k \<le> x \<and> x < of_int k + 1" by (simp add: abs_if split: if_splits)
    then have "\<lfloor>x\<rfloor> = k" by (simp add: floor_eq_iff)
    with t show "trunc_real x = of_int k" by simp
  qed
next
  case False
  then have t: "trunc_real x = of_int \<lceil>x\<rceil>" by (simp add: trunc_real_def)
  show ?thesis
  proof
    assume "trunc_real x = of_int k"
    with t have k: "k = \<lceil>x\<rceil>" by simp
    with False have "k \<le> 0" by (simp add: ceiling_le_iff)
    then have "(of_int k :: real) \<le> 0" by simp
    moreover from k have "x \<le> of_int k" "of_int k - 1 < x" by linarith+
    ultimately show "\<bar>of_int k :: real\<bar> \<le> \<bar>x\<bar> \<and> \<bar>x - of_int k\<bar> < 1"
      using False by simp
  next
    assume a: "\<bar>of_int k :: real\<bar> \<le> \<bar>x\<bar> \<and> \<bar>x - of_int k\<bar> < 1"
    have "k \<le> 0"
    proof (rule ccontr)
      assume "\<not> k \<le> 0"
      then have "1 \<le> k" by simp
      then have "1 \<le> (of_int k :: real)" by (metis of_int_le_iff of_int_1)
      with False a show False by simp
    qed
    then have "(of_int k :: real) \<le> 0" by simp
    with a False have "of_int k - 1 < x \<and> x \<le> of_int k" by (simp add: abs_if split: if_splits)
    then have "\<lceil>x\<rceil> = k" by (simp add: ceiling_eq_iff)
    with t show "trunc_real x = of_int k" by simp
  qed
qed

lemma trunc_real_int: "\<exists>k::int. trunc_real x = of_int k"
  unfolding trunc_real_def by auto

lemma integral_Fin: "integral (Fin x) \<longleftrightarrow> (\<exists>k::int. x = of_int k)"
proof
  assume "integral (Fin x)"
  then have "x = trunc_real x" by (simp add: integral_def)
  with trunc_real_int [of x] show "\<exists>k::int. x = of_int k" by metis
next
  assume "\<exists>k::int. x = of_int k"
  then show "integral (Fin x)" by (auto simp: integral_def)
qed

lemma integral_cases:
  "integral v \<longleftrightarrow> v = PInf \<or> v = NInf \<or> (\<exists>k::int. v = Fin (of_int k))"
proof (cases v)
  case (Fin x)
  then show ?thesis by (auto simp: integral_Fin)
qed (simp_all add: integral_def)

lemma truncate_Fin:
  "truncate_toward_zero (Fin x) = Fin (of_int k) \<longleftrightarrow>
     \<bar>of_int k :: real\<bar> \<le> \<bar>x\<bar> \<and> \<bar>x - of_int k\<bar> < 1"
  by (simp add: truncate_toward_zero_def trunc_real_char)

lemma perturbation_round:
  assumes "perturbation ext cfg ns t i b n m ns' t'" and "round_flag cfg = True"
    and "valid_config cfg" and "unifDouble_contract ext" and "length ns = NumNumbers cfg"
  shows "magnitude m"
    and "ns' = ns[i := truncate_toward_zero (if b then d_sub (ns ! i) m else d_add (ns ! i) m)]"
    and "ns' ! i = truncate_toward_zero (if b then d_sub (ns ! i) m else d_add (ns ! i) m)"
    and "ns ! i \<noteq> NaN \<Longrightarrow> integral (ns' ! i)"
proof -
  note f = perturbation_facts [OF assms(1,3)]
  from f(2,3) assms(4) show mg: "magnitude m" by (blast intro: contract_magnitude)
  from f(4) assms(2)
  show e: "ns' = ns[i := truncate_toward_zero
      (if b then d_sub (ns ! i) m else d_add (ns ! i) m)]"
    by (simp add: perturb_def Let_def)
  from f(1) assms(5) have il: "i < length ns" by simp
  with e show v: "ns' ! i = truncate_toward_zero
      (if b then d_sub (ns ! i) m else d_add (ns ! i) m)"
    by simp
  from mg obtain x where m: "m = Fin x" by (auto simp: magnitude_def)
  assume "ns ! i \<noteq> NaN"
  from finite_step_not_NaN [OF this, of x] m v show "integral (ns' ! i)"
    by (auto intro: integral_truncate)
qed

lemma mutate_body_round:
  assumes "round_flag cfg = True" and "valid_config cfg" and "length ns = NumNumbers cfg"
    and "unifSizeT ext (prng t) = (x, g1)" and "unifSizeT ext g1 = (y, g2)"
  shows "mutate_body ext cfg ns t = Some (ns', t') \<longleftrightarrow>
     (\<exists>n. redraws (unifDouble ext) g2 n \<and>
          ns' = ns[x mod NumNumbers cfg := truncate_toward_zero
                    (if y mod 2 = 1
                     then d_sub (ns ! (x mod NumNumbers cfg)) (kth_draw (unifDouble ext) g2 n)
                     else d_add (ns ! (x mod NumNumbers cfg)) (kth_draw (unifDouble ext) g2 n))] \<and>
          t' = t\<lparr>prng := engine_after (unifDouble ext) (Suc n) g2\<rparr>)"
  unfolding mutate_body_iff [OF assms(2,3)] perturbation_def
  using assms(1,4,5) by (auto simp: perturb_def Let_def)

text \<open>
  C6. In round mode every perturbation step is: the magnitude drawn is added to or
  subtracted from the slot drawn, and the sum or difference is truncated toward zero at
  once, so the slot is left holding the whole number nearest to it that is not larger in
  size; that value has zero fractional part. Every assignment \<open>mutate\<close> makes from a
  corpus of assignments with zero fractional parts has zero fractional parts only, and so
  has every assignment of the corpus after any number of rounds from the constructor's
  all-zero seed, and every candidate mutated from it. The draws of \<open>unifDouble\<close> are what
  the distribution promises (finite numbers).
\<close>

theorem round_mode_integral:
  assumes "round_flag cfg = True" and "valid_config cfg" and "unifDouble_contract ext"
  shows "(\<forall>ns t ns' t' x g1 y g2. length ns = NumNumbers cfg \<longrightarrow>
            unifSizeT ext (prng t) = (x, g1) \<longrightarrow> unifSizeT ext g1 = (y, g2) \<longrightarrow>
            (mutate_body ext cfg ns t = Some (ns', t') \<longleftrightarrow>
             (\<exists>n. redraws (unifDouble ext) g2 n \<and>
                ns' = ns[x mod NumNumbers cfg := truncate_toward_zero
                  (if y mod 2 = 1
                   then d_sub (ns ! (x mod NumNumbers cfg)) (kth_draw (unifDouble ext) g2 n)
                   else d_add (ns ! (x mod NumNumbers cfg)) (kth_draw (unifDouble ext) g2 n))] \<and>
                t' = t\<lparr>prng := engine_after (unifDouble ext) (Suc n) g2\<rparr>)))
       \<and> (\<forall>ns t ns' t'. length ns = NumNumbers cfg \<longrightarrow>
            (mutate_body ext cfg ns t = Some (ns', t') \<longleftrightarrow>
             (\<exists>i b n m. perturbation ext cfg ns t i b n m ns' t')))
       \<and> (\<forall>ns t i b n m ns' t'. length ns = NumNumbers cfg \<longrightarrow>
            perturbation ext cfg ns t i b n m ns' t' \<longrightarrow>
            i < NumNumbers cfg \<and> magnitude m \<and>
            ns' = ns[i := truncate_toward_zero
                           (if b then d_sub (ns ! i) m else d_add (ns ! i) m)] \<and>
            ns' ! i = truncate_toward_zero (if b then d_sub (ns ! i) m else d_add (ns ! i) m) \<and>
            (ns ! i \<noteq> NaN \<longrightarrow> integral (ns' ! i)))
       \<and> (\<forall>x. \<forall>k::int. truncate_toward_zero (Fin x) = Fin (of_int k) \<longleftrightarrow>
            \<bar>of_int k :: real\<bar> \<le> \<bar>x\<bar> \<and> \<bar>x - of_int k\<bar> < 1)
       \<and> (\<forall>x. \<exists>k::int. truncate_toward_zero (Fin x) = Fin (of_int k))
       \<and> truncate_toward_zero PInf = PInf \<and> truncate_toward_zero NInf = NInf
       \<and> truncate_toward_zero NaN = NaN
       \<and> (\<forall>v. integral v \<longleftrightarrow> v = PInf \<or> v = NInf \<or> (\<exists>k::int. v = Fin (of_int k)))
       \<and> (\<forall>s ns' s'. integral_corpus cfg s \<longrightarrow> mutate ext cfg s = Some (ns', s') \<longrightarrow>
            list_all integral ns')
       \<and> (\<forall>g0 n st. cycles ext cfg n (constructed cfg g0) = Some st \<longrightarrow>
            integral_corpus cfg (state_of st))
       \<and> (\<forall>g0 n sn ns' s'. cycles ext cfg n (constructed cfg g0) = Some (Continue sn) \<longrightarrow>
            mutate ext cfg sn = Some (ns', s') \<longrightarrow> list_all integral ns')"
proof (intro conjI allI impI)
  fix ns :: NumStruct and t :: "'a fuzzer" and ns' t' x g1 y g2
  assume "length ns = NumNumbers cfg" and "unifSizeT ext (prng t) = (x, g1)"
    and "unifSizeT ext g1 = (y, g2)"
  from mutate_body_round [OF assms(1,2) this]
  show "mutate_body ext cfg ns t = Some (ns', t') \<longleftrightarrow>
     (\<exists>n. redraws (unifDouble ext) g2 n \<and>
          ns' = ns[x mod NumNumbers cfg := truncate_toward_zero
                    (if y mod 2 = 1
                     then d_sub (ns ! (x mod NumNumbers cfg)) (kth_draw (unifDouble ext) g2 n)
                     else d_add (ns ! (x mod NumNumbers cfg)) (kth_draw (unifDouble ext) g2 n))] \<and>
          t' = t\<lparr>prng := engine_after (unifDouble ext) (Suc n) g2\<rparr>)" .
next
  fix ns :: NumStruct and t :: "'a fuzzer" and ns' t'
  assume l: "length ns = NumNumbers cfg"
  from mutate_body_iff [OF assms(2) l]
  show "mutate_body ext cfg ns t = Some (ns', t') \<longleftrightarrow>
          (\<exists>i b n m. perturbation ext cfg ns t i b n m ns' t')" .
next
  fix ns :: NumStruct and t :: "'a fuzzer" and i b n m ns' t'
  assume l: "length ns = NumNumbers cfg" and p: "perturbation ext cfg ns t i b n m ns' t'"
  from perturbation_facts(1) [OF p assms(2)] show "i < NumNumbers cfg" .
  note r = perturbation_round [OF p assms l]
  from r(1) show "magnitude m" .
  from r(2) show "ns' = ns[i := truncate_toward_zero
                           (if b then d_sub (ns ! i) m else d_add (ns ! i) m)]" .
  from r(3) show "ns' ! i = truncate_toward_zero
      (if b then d_sub (ns ! i) m else d_add (ns ! i) m)" .
  assume "ns ! i \<noteq> NaN"
  then show "integral (ns' ! i)" by (rule r(4))
next
  fix x :: real and k :: int
  show "truncate_toward_zero (Fin x) = Fin (of_int k) \<longleftrightarrow>
            \<bar>of_int k :: real\<bar> \<le> \<bar>x\<bar> \<and> \<bar>x - of_int k\<bar> < 1"
    by (rule truncate_Fin)
next
  fix x :: real
  from trunc_real_int [of x] show "\<exists>k::int. truncate_toward_zero (Fin x) = Fin (of_int k)"
    by (simp add: truncate_toward_zero_def)
next
  show "truncate_toward_zero PInf = PInf" "truncate_toward_zero NInf = NInf"
    "truncate_toward_zero NaN = NaN"
    by (simp_all add: truncate_toward_zero_def)
next
  fix v
  show "integral v \<longleftrightarrow> v = PInf \<or> v = NInf \<or> (\<exists>k::int. v = Fin (of_int k))"
    by (rule integral_cases)
next
  fix s :: "'a fuzzer" and ns' s'
  assume "integral_corpus cfg s" and "mutate ext cfg s = Some (ns', s')"
  from mutate_integral [OF assms this] show "list_all integral ns'" by simp
next
  fix g0 n st
  assume "cycles ext cfg n (constructed cfg g0) = Some st"
  from cycles_integral [OF assms constructed_integral this]
  show "integral_corpus cfg (state_of st)" .
next
  fix g0 n sn ns' s'
  assume "cycles ext cfg n (constructed cfg g0) = Some (Continue sn)"
    and m: "mutate ext cfg sn = Some (ns', s')"
  from cycles_integral [OF assms constructed_integral this(1)]
  have "integral_corpus cfg sn" by simp
  from mutate_integral [OF assms this m] show "list_all integral ns'" by simp
qed

text \<open>
  One round on the source whose every draw is 1.75: 0 becomes 1, then 1 - 1.75 = -0.75
  becomes 0 (rounding down would give -1), then 0 becomes 1 again (rounding to the nearest
  would give 2). The candidate is 1.
\<close>

theorem round_mode_integral_witness:
  "(\<exists>st. cycles (steady_ext (Fin (7 / 4))) cfg_a0 1 (constructed cfg_a0 0) = Some st \<and>
      corpus (state_of st) = [[Fin 0], [Fin 1]] \<and> integral_corpus cfg_a0 (state_of st)) \<and>
   perturbation (steady_ext (Fin (7 / 4))) cfg_a0 [Fin 1] ((constructed cfg_a0 0)\<lparr>prng := 4\<rparr>)
     0 True 0 (Fin (7 / 4)) [Fin 0] ((constructed cfg_a0 0)\<lparr>prng := 7\<rparr>) \<and>
   mutate_body (steady_ext (Fin (7 / 4))) cfg_a0 [Fin 1] ((constructed cfg_a0 0)\<lparr>prng := 4\<rparr>) =
     Some ([Fin 0], (constructed cfg_a0 0)\<lparr>prng := 7\<rparr>) \<and>
   [Fin 0] = [Fin 1][0 := truncate_toward_zero (d_sub (Fin 1) (Fin (7 / 4)))] \<and>
   integral (Fin 0)"
proof -
  have c: "round_flag cfg_a0 = True" "NumNumbers cfg_a0 = 1"
    by (simp_all add: cfg_a0_def EquationFuzzer_default_def EquationFuzzer_def)
  have v: "valid_config cfg_a0"
    by (simp add: valid_config_def c)
  have u: "unifDouble_contract (steady_ext (Fin (7 / 4)))"
    by (rule steady_contract) simp_all
  note t = round_mode_integral [OF c(1) v u, THEN conjunct2]
  define sA where "sA = (constructed cfg_a0 (0::nat))\<lparr>iter := 1, prng := 10,
    corpus := [[Fin 0], [Fin 1]], diff := Some (Fin 1),
    events := [ParserCompile ''a'', ParserCompile ''0'',
               ProgressReport ''#'' ''#'' ''a=?'' ''?'' ''0'' ''?'']\<rparr>"
  have e: "cycles (steady_ext (Fin (7 / 4))) cfg_a0 1 (constructed cfg_a0 0) = Some (Continue sA)"
    unfolding sA_def by code_simp
  from t [THEN conjunct2, THEN conjunct2, THEN conjunct2, THEN conjunct2, THEN conjunct2,
      THEN conjunct2, THEN conjunct2, THEN conjunct2, THEN conjunct2, THEN conjunct1,
      rule_format, OF e]
  have "integral_corpus cfg_a0 (state_of (Continue sA))" .
  moreover have "corpus (state_of (Continue sA)) = [[Fin 0], [Fin 1]]"
    by (simp add: sA_def)
  ultimately have 1: "\<exists>st. cycles (steady_ext (Fin (7 / 4))) cfg_a0 1 (constructed cfg_a0 0) =
      Some st \<and> corpus (state_of st) = [[Fin 0], [Fin 1]] \<and> integral_corpus cfg_a0 (state_of st)"
    using e by blast
  have p: "perturbation (steady_ext (Fin (7 / 4))) cfg_a0 [Fin 1]
     ((constructed cfg_a0 0)\<lparr>prng := 4\<rparr>)
     0 True 0 (Fin (7 / 4)) [Fin 0] ((constructed cfg_a0 0)\<lparr>prng := 7\<rparr>)"
    by code_simp
  have l: "length [Fin 1] = NumNumbers cfg_a0" by (simp add: c)
  from p have "\<exists>i b n m. perturbation (steady_ext (Fin (7 / 4))) cfg_a0 [Fin 1]
     ((constructed cfg_a0 0)\<lparr>prng := 4\<rparr>) i b n m [Fin 0] ((constructed cfg_a0 0)\<lparr>prng := 7\<rparr>)"
    by blast
  with t [THEN conjunct1, rule_format, OF l]
  have 2: "mutate_body (steady_ext (Fin (7 / 4))) cfg_a0 [Fin 1]
      ((constructed cfg_a0 0)\<lparr>prng := 4\<rparr>) = Some ([Fin 0], (constructed cfg_a0 0)\<lparr>prng := 7\<rparr>)"
    by simp
  note r = t [THEN conjunct2, THEN conjunct1, rule_format, OF l p]
  from r [THEN conjunct2, THEN conjunct2, THEN conjunct1]
  have 3: "[Fin 0] = [Fin 1][0 := truncate_toward_zero (d_sub (Fin 1) (Fin (7 / 4)))]"
    by simp
  from r [THEN conjunct2, THEN conjunct2, THEN conjunct2, THEN conjunct2]
  have 4: "integral (Fin 0)"
    by simp
  from 1 p 2 3 4 show ?thesis by blast
qed

section \<open>Compile failures\<close>

lemma test_conditions_broken:
  assumes "dropWhile (cond_holds ext ns) cs = C # rest" and "parser_compile ext C = Inl err"
  shows "test_conditions ext cs ns s =
           Exits 1 (s\<lparr>events := events s @ map ParserCompile (evaluated ext ns cs)
                                  @ [ErrorReport err C]\<rparr>)"
  using assms(1)
proof (induction cs arbitrary: s)
  case Nil
  then show ?case by simp
next
  case (Cons D Ds)
  show ?case
  proof (cases "cond_holds ext ns D")
    case True
    then obtain e where e: "parser_compile ext D = Inr e" "e ns = Fin 1"
      by (auto simp: cond_holds_def split: sum.splits)
    from True Cons.prems have "dropWhile (cond_holds ext ns) Ds = C # rest" by simp
    from Cons.IH [OF this] e True show ?thesis
      by (simp add: calc_def Let_def emit_def evaluated_Cons)
  next
    case False
    with Cons.prems have "D = C" by simp
    with False assms(2) show ?thesis
      by (simp add: calc_def Let_def emit_def evaluated_Cons)
  qed
qed

lemma evaluated_all: "list_all (cond_holds ext ns) cs \<Longrightarrow> evaluated ext ns cs = cs"
  by (induction cs) (simp_all add: evaluated_Cons, simp add: evaluated_def)

lemma test_conditions_pass:
  assumes "list_all (cond_holds ext ns) cs"
  shows "test_conditions ext cs ns s =
           Returns False (s\<lparr>events := events s @ map ParserCompile cs\<rparr>)"
proof -
  from assms have d: "dropWhile (cond_holds ext ns) cs = []"
    by (simp add: list_all_iff)
  have "list_all (compiles ext) (take 1 (dropWhile (cond_holds ext ns) cs))"
    unfolding d by simp
  from test_conditions_compiled [OF this] assms show ?thesis
    by (simp add: evaluated_all)
qed

lemma Fuzz_loop_never:
  assumes step: "\<And>s. P s \<Longrightarrow> \<exists>s'. cycle ext cfg s = Some (Continue s') \<and> P s'"
    and "P s"
  shows "Fuzz_loop ext cfg s = None"
proof (cases "Fuzz_loop ext cfg s")
  case None
  then show ?thesis .
next
  case (Some st)
  have inv: "cycles ext cfg n s0 = Some (Continue sn) \<Longrightarrow> P s0 \<Longrightarrow> P sn" for n s0 sn
  proof (induction n arbitrary: s0)
    case 0
    then show ?case by simp
  next
    case (Suc n)
    from step [OF Suc.prems(2)] obtain s1 where
      c: "cycle ext cfg s0 = Some (Continue s1)" and p: "P s1" by blast
    with Suc.prems(1) have "cycles ext cfg n s1 = Some (Continue sn)" by simp
    from Suc.IH [OF this p] show ?case .
  qed
  from Fuzz_loop_cycles [OF Some] obtain n sn where
    "cycles ext cfg n s = Some (Continue sn)" "cycle ext cfg sn = Some st" "\<not> is_Continue st"
    by blast
  with inv [OF this(1) assms(2)] step [of sn] show ?thesis by auto
qed

text \<open>
  C7, as amended. A text is compiled each time \<open>calc\<close> evaluates it, inside the rounds of
  the search loop, and a text that does not compile makes \<open>calc\<close> print the parser's
  message and the text and exit with status 1 at that moment. In a round, after the
  candidate has been sampled and mutated, the conditions are compiled in order up to the
  first that does not evaluate to 1.0, and \<open>expr1\<close> and then \<open>expr2\<close> only for a
  candidate that passed every condition. So the failure of a condition is reported in the
  first round in which every condition before it holds, that of \<open>expr1\<close> (and of \<open>expr2\<close>,
  when \<open>expr1\<close> compiles) in the first round whose candidate passes every condition, and a
  round whose candidate is rejected by a condition that compiles reports nothing. A round
  that scores its candidate hands every condition and both expressions to the parser
  again.
\<close>

theorem compile_failure_exits_in_round:
  "(\<forall>e err ns s. parser_compile ext e = Inl err \<longrightarrow>
      calc ext e ns s =
        Exits 1 (s\<lparr>events := events s @ [ParserCompile e, ErrorReport err e]\<rparr>))
   \<and> (\<forall>s ns s1 C rest err. mutate ext cfg s = Some (ns, s1) \<longrightarrow>
        dropWhile (cond_holds ext ns) (conditions cfg) = C # rest \<longrightarrow>
        parser_compile ext C = Inl err \<longrightarrow>
        cycle ext cfg s =
          Some (Exit 1 (s1\<lparr>events := events s
             @ map ParserCompile (evaluated ext ns (conditions cfg)) @ [ErrorReport err C]\<rparr>)))
   \<and> (\<forall>s ns s1 err. mutate ext cfg s = Some (ns, s1) \<longrightarrow>
        list_all (cond_holds ext ns) (conditions cfg) \<longrightarrow>
        parser_compile ext (expr1 cfg) = Inl err \<longrightarrow>
        cycle ext cfg s =
          Some (Exit 1 (s1\<lparr>events := events s
             @ map ParserCompile (conditions cfg @ [expr1 cfg])
             @ [ErrorReport err (expr1 cfg)]\<rparr>)))
   \<and> (\<forall>s ns s1 f1 err. mutate ext cfg s = Some (ns, s1) \<longrightarrow>
        list_all (cond_holds ext ns) (conditions cfg) \<longrightarrow>
        parser_compile ext (expr1 cfg) = Inr f1 \<longrightarrow>
        parser_compile ext (expr2 cfg) = Inl err \<longrightarrow>
        cycle ext cfg s =
          Some (Exit 1 (s1\<lparr>events := events s
             @ map ParserCompile (conditions cfg @ [expr1 cfg, expr2 cfg])
             @ [ErrorReport err (expr2 cfg)]\<rparr>)))
   \<and> (\<forall>s ns s1. mutate ext cfg s = Some (ns, s1) \<longrightarrow>
        \<not> list_all (cond_holds ext ns) (conditions cfg) \<longrightarrow>
        list_all (compiles ext) (take 1 (dropWhile (cond_holds ext ns) (conditions cfg))) \<longrightarrow>
        cycle ext cfg s =
          Some (Continue (s1\<lparr>events := events s
             @ map ParserCompile (evaluated ext ns (conditions cfg))\<rparr>)))
   \<and> (\<forall>s ns s1 f1 f2. mutate ext cfg s = Some (ns, s1) \<longrightarrow>
        list_all (cond_holds ext ns) (conditions cfg) \<longrightarrow>
        parser_compile ext (expr1 cfg) = Inr f1 \<longrightarrow>
        parser_compile ext (expr2 cfg) = Inr f2 \<longrightarrow>
        (\<exists>st. cycle ext cfg s = Some st \<and>
           take (length (conditions cfg) + 2) (drop (length (events s)) (events (state_of st)))
             = map ParserCompile (conditions cfg @ [expr1 cfg, expr2 cfg])))"
proof (intro conjI allI impI)
  fix e err ns and s :: "'a fuzzer"
  assume "parser_compile ext e = Inl err"
  then show "calc ext e ns s =
        Exits 1 (s\<lparr>events := events s @ [ParserCompile e, ErrorReport err e]\<rparr>)"
    by (simp add: calc_def emit_def)
next
  fix s ns s1 C rest err
  assume m: "mutate ext cfg s = Some (ns, s1)"
    and d: "dropWhile (cond_holds ext ns) (conditions cfg) = C # rest"
    and c: "parser_compile ext C = Inl err"
  from mutate_drew [OF m] have "events s1 = events s" by (simp add: drew_def)
  with m test_conditions_broken [OF d c, of s1]
  show "cycle ext cfg s =
          Some (Exit 1 (s1\<lparr>events := events s
             @ map ParserCompile (evaluated ext ns (conditions cfg)) @ [ErrorReport err C]\<rparr>))"
    by (simp add: cycle_def)
next
  fix s ns s1 err
  assume m: "mutate ext cfg s = Some (ns, s1)"
    and h: "list_all (cond_holds ext ns) (conditions cfg)"
    and c: "parser_compile ext (expr1 cfg) = Inl err"
  from mutate_drew [OF m] have "events s1 = events s" by (simp add: drew_def)
  with m test_conditions_pass [OF h, of s1] c
  show "cycle ext cfg s =
          Some (Exit 1 (s1\<lparr>events := events s
             @ map ParserCompile (conditions cfg @ [expr1 cfg])
             @ [ErrorReport err (expr1 cfg)]\<rparr>))"
    by (simp add: cycle_def numStructToDiff_def calc_def emit_def)
next
  fix s ns s1 f1 err
  assume m: "mutate ext cfg s = Some (ns, s1)"
    and h: "list_all (cond_holds ext ns) (conditions cfg)"
    and c1: "parser_compile ext (expr1 cfg) = Inr f1"
    and c2: "parser_compile ext (expr2 cfg) = Inl err"
  from mutate_drew [OF m] have "events s1 = events s" by (simp add: drew_def)
  with m test_conditions_pass [OF h, of s1] c1 c2
  show "cycle ext cfg s =
          Some (Exit 1 (s1\<lparr>events := events s
             @ map ParserCompile (conditions cfg @ [expr1 cfg, expr2 cfg])
             @ [ErrorReport err (expr2 cfg)]\<rparr>))"
    by (simp add: cycle_def numStructToDiff_def calc_def emit_def)
next
  fix s ns s1
  assume m: "mutate ext cfg s = Some (ns, s1)"
    and f: "\<not> list_all (cond_holds ext ns) (conditions cfg)"
    and c: "list_all (compiles ext) (take 1 (dropWhile (cond_holds ext ns) (conditions cfg)))"
  from mutate_drew [OF m] have "events s1 = events s" by (simp add: drew_def)
  with m test_conditions_compiled [OF c, of s1] f
  show "cycle ext cfg s =
          Some (Continue (s1\<lparr>events := events s
             @ map ParserCompile (evaluated ext ns (conditions cfg))\<rparr>))"
    by (simp add: cycle_def)
next
  fix s ns s1 f1 f2
  assume m: "mutate ext cfg s = Some (ns, s1)"
    and h: "list_all (cond_holds ext ns) (conditions cfg)"
    and c1: "parser_compile ext (expr1 cfg) = Inr f1"
    and c2: "parser_compile ext (expr2 cfg) = Inr f2"
  from mutate_drew [OF m] have e1: "events s1 = events s" by (simp add: drew_def)
  let ?s2 = "s1\<lparr>events := events s1 @ map ParserCompile (conditions cfg)\<rparr>"
  let ?s3 = "(emit (ParserCompile (expr2 cfg)) (emit (ParserCompile (expr1 cfg)) ?s2))
               \<lparr>iter := iter ?s2 + 1\<rparr>"
  let ?d = "d_abs (if d_gt (f1 ns) (f2 ns) then d_sub (f1 ns) (f2 ns) else d_sub (f2 ns) (f1 ns))"
  let ?st = "decide ext cfg ns ?d (f1 ns) (f2 ns) ?s3"
  have n: "numStructToDiff ext cfg ns ?s2 = Returns (?d, f1 ns, f2 ns) ?s3"
    using c1 c2 by (simp add: numStructToDiff_Returns)
  with m test_conditions_pass [OF h, of s1] have c: "cycle ext cfg s = Some ?st"
    by (simp add: cycle_def)
  have "\<exists>tl. events (state_of ?st) = events ?s3 @ tl"
    by (simp add: decide_def Let_def emit_def)
  then obtain tl where "events (state_of ?st) =
      events s @ map ParserCompile (conditions cfg @ [expr1 cfg, expr2 cfg]) @ tl"
    using e1 by auto
  then have "take (length (conditions cfg) + 2) (drop (length (events s)) (events (state_of ?st)))
             = map ParserCompile (conditions cfg @ [expr1 cfg, expr2 cfg])"
    by simp
  with c show "\<exists>st. cycle ext cfg s = Some st \<and>
           take (length (conditions cfg) + 2) (drop (length (events s)) (events (state_of st)))
             = map ParserCompile (conditions cfg @ [expr1 cfg, expr2 cfg])"
    by blast
qed

text \<open>
  Every draw 2.5, one condition that holds and a first expression that does not compile:
  the error is reported in the first round, after the ten draws of the mutation.
\<close>

theorem compile_failure_exits_in_round_witness:
  "cycle (steady_ext (Fin (5 / 2))) cfg_broken (constructed cfg_broken 0) =
     Some (Exit 1 ((constructed cfg_broken 0)\<lparr>prng := 10,
       events := [ParserCompile ''1'', ParserCompile ''('', ErrorReport ''ERR'' ''('']\<rparr>))"
proof -
  note T = compile_failure_exits_in_round [of "steady_ext (Fin (5 / 2))" cfg_broken]
  have m: "mutate (steady_ext (Fin (5 / 2))) cfg_broken (constructed cfg_broken 0) =
      Some ([Fin 2], (constructed cfg_broken 0)\<lparr>prng := 10\<rparr>)"
    by code_simp
  have h: "list_all (cond_holds (steady_ext (Fin (5 / 2))) [Fin 2]) (conditions cfg_broken)"
    by code_simp
  have c: "parser_compile (steady_ext (Fin (5 / 2))) (expr1 cfg_broken) = Inl ''ERR''"
    by (simp add: steady_ext_def table_compile_def cfg_broken_def EquationFuzzer_default_def
          EquationFuzzer_def)
  have e: "events (constructed cfg_broken (0::nat)) = []" "conditions cfg_broken = [''1'']"
    "expr1 cfg_broken = ''(''"
    by (simp_all add: constructed_def cfg_broken_def EquationFuzzer_default_def
          EquationFuzzer_def)
  from T [THEN conjunct2, THEN conjunct2, THEN conjunct1, rule_format, OF m h c] e
  show ?thesis by simp
qed

text \<open>
  The program started as \<open>fuzz "(" "0" "0"\<close> on the source whose every draw is 2.5: the
  first expression does not compile, yet the program never reports it and never exits,
  because no candidate passes the condition; and the condition's text is handed to the
  parser in every round, twice in two rounds.
\<close>

theorem compile_failure_counterexample:
  "parser_compile (steady_ext (Fin (5 / 2))) (expr1 (main_fuzzer argv_broken)) = Inl ''ERR'' \<and>
   main (steady_ext (Fin (5 / 2))) 0 argv_broken = None \<and>
   cycles (steady_ext (Fin (5 / 2))) (main_fuzzer argv_broken) 2
       (constructed (main_fuzzer argv_broken) 0) =
     Some (Continue ((constructed (main_fuzzer argv_broken) 0)\<lparr>prng := 20,
       events := [ParserCompile ''0'', ParserCompile ''0'']\<rparr>))"
proof (intro conjI)
  let ?ext = "steady_ext (Fin (5 / 2))"
  let ?cfg = "main_fuzzer argv_broken"
  show "parser_compile ?ext (expr1 ?cfg) = Inl ''ERR''"
    by (simp add: steady_ext_def table_compile_def main_fuzzer_def argv_broken_def
          EquationFuzzer_default_def EquationFuzzer_def)
  show "cycles ?ext ?cfg 2 (constructed ?cfg 0) =
     Some (Continue ((constructed ?cfg 0)\<lparr>prng := 20,
       events := [ParserCompile ''0'', ParserCompile ''0'']\<rparr>))"
    by code_simp
  have cs: "conditions ?cfg = [''0'']"
    by (simp add: main_fuzzer_def argv_broken_def EquationFuzzer_default_def EquationFuzzer_def)
  have r: "redraw_ends ?ext"
    by (rule steady_redraw_ends) simp
  have step: "\<exists>s'. cycle ?ext ?cfg s = Some (Continue s') \<and> corpus s' \<noteq> []"
    if "corpus s \<noteq> []" for s
  proof -
    from mutate_ends [OF r that] obtain ns s1 where m: "mutate ?ext ?cfg s = Some (ns, s1)"
      by blast
    from mutate_drew [OF m] that have c1: "corpus s1 \<noteq> []" by (simp add: drew_def)
    have f: "\<not> cond_holds ?ext ns ''0''" and c: "compiles ?ext ''0''"
      by (simp_all add: cond_holds_def compiles_def steady_ext_def table_compile_def)
    then have "list_all (compiles ?ext) (take 1 (dropWhile (cond_holds ?ext ns) (conditions ?cfg)))"
      by (simp add: cs)
    from test_conditions_compiled [OF this, of s1] f
    have "test_conditions ?ext (conditions ?cfg) ns s1 =
        Returns True (s1\<lparr>events := events s1 @ map ParserCompile (evaluated ?ext ns (conditions ?cfg))\<rparr>)"
      by (simp add: cs)
    with m c1 show ?thesis
      by (simp add: cycle_def)
  qed
  have "corpus ((constructed ?cfg (0::nat))\<lparr>diff := None\<rparr>) \<noteq> []"
    by (simp add: constructed_def)
  from Fuzz_loop_never [of "\<lambda>s. corpus s \<noteq> []" ?ext ?cfg, OF step this]
  show "main ?ext 0 argv_broken = None"
    by (simp add: main_def Fuzz_def argv_broken_def)
qed

section \<open>The first round\<close>

lemma d_abs_zero_iff: "d_abs v = Fin 0 \<longleftrightarrow> v = Fin 0"
  by (cases v) simp_all

lemma gap_to_zero:
  "d_abs (if d_gt v (Fin 0) then d_sub v (Fin 0) else d_sub (Fin 0) v) = d_abs v"
  by (cases v) (simp_all add: d_gt_def d_sub_def)

lemma toString_index_0: "toString_index 0 = ''a''"
  unfolding toString_index_def by code_simp

lemma toString_single:
  "NumNumbers cfg = 1 \<Longrightarrow> toString ext cfg [v] sep = ''a='' @ show_double ext v"
  by (simp add: toString_def toString_index_0)

lemma cycle_ends_iff:
  "(\<exists>st. cycle ext cfg s = Some st) \<longleftrightarrow> (\<exists>ns s1. mutate ext cfg s = Some (ns, s1))"
  by (auto simp: cycle_def split: option.splits)

lemma Fuzz_first_round:
  assumes "cycle ext cfg s = Some (Return s')" and "diff s = None"
  shows "Fuzz ext cfg s = Some (Return s')"
proof -
  from assms(2) have "s\<lparr>diff := None\<rparr> = s" by simp
  with assms(1) show ?thesis
    unfolding Fuzz_def by (subst Fuzz_loop.simps) simp
qed

text \<open>
  C8, as amended. With one variable, \<open>expr1 = "a"\<close>, \<open>expr2 = "0"\<close> and no conditions,
  every candidate passes the conditions vacuously. The first round does not evaluate the
  seed \<open>a = 0\<close> but the seed after the three perturbation steps of \<open>mutate\<close>, each with
  the first magnitude drawn that is not zero. The round ends exactly when the three redraw
  loops meet such a draw, which they do when the engine cannot draw zero for ever;
  otherwise it never ends. When it ends, the candidate is scored with difference \<open>|a|\<close>
  and accepted, no best difference being set. The loop returns in this first round exactly
  when the mutated value is 0, and then reports the witnessing assignment \<open>a=0\<close>;
  otherwise it goes on to the next round.
\<close>

theorem first_round_scores_mutated_seed:
  assumes "parser_compile ext ''a'' = Inr fa" and "\<forall>ns. fa ns = ns ! 0"
    and "parser_compile ext ''0'' = Inr f0" and "\<forall>ns. f0 ns = Fin 0"
    and "cfg = EquationFuzzer 1 ''a'' ''0'' [] rnd"
    and "unifSizeT ext g0 = (x0, g1)"
  shows "((\<exists>st. cycle ext cfg (constructed cfg g0) = Some st) \<longleftrightarrow>
            (\<exists>ns s1. three_perturbations ext cfg [Fin 0] ((constructed cfg g0)\<lparr>prng := g1\<rparr>)
                       ns s1))
       \<and> (redraw_ends ext \<longrightarrow> (\<exists>st. cycle ext cfg (constructed cfg g0) = Some st))
       \<and> (\<forall>ns s1. mutate ext cfg (constructed cfg g0) = Some (ns, s1) \<longleftrightarrow>
            three_perturbations ext cfg [Fin 0] ((constructed cfg g0)\<lparr>prng := g1\<rparr>) ns s1)
       \<and> (\<forall>ns s1. mutate ext cfg (constructed cfg g0) = Some (ns, s1) \<longrightarrow>
            length ns = 1 \<and>
            (\<exists>st. cycle ext cfg (constructed cfg g0) = Some st \<and>
               diff (state_of st) = Some (d_abs (ns ! 0)) \<and>
               corpus (state_of st) = [[Fin 0], ns] \<and>
               ((\<exists>s'. st = Return s') \<longleftrightarrow> ns = [Fin 0]) \<and>
               (ns = [Fin 0] \<longrightarrow>
                  Fuzz ext cfg (constructed cfg g0) = Some st \<and>
                  last (events (state_of st)) =
                    SolutionReport ''a'' ''0'' [] (''a='' @ show_double ext (Fin 0))
                      (''a='' @ show_double ext (Fin 0) @ newline @ ''a == 0'' @ newline)) \<and>
               (ns \<noteq> [Fin 0] \<longrightarrow> is_Continue st)))
       \<and> (\<forall>ns t i b n m ns' t'. perturbation ext cfg ns t i b n m ns' t' \<longrightarrow>
            i = 0 \<and> m \<noteq> Fin 0 \<and> (\<exists>g. fst (unifDouble ext g) = m) \<and>
            ns' = perturb rnd ns i b m)"
proof -
  let ?s0 = "constructed cfg g0"
  from assms(5) have c: "NumNumbers cfg = 1" "round_flag cfg = rnd" "conditions cfg = []"
    "expr1 cfg = ''a''" "expr2 cfg = ''0''"
    by (simp_all add: EquationFuzzer_def)
  have v: "valid_config cfg" by (simp add: valid_config_def c)
  have s0: "corpus ?s0 = [[Fin 0]]" "diff ?s0 = None" "prng ?s0 = g0"
    by (simp_all add: constructed_def c)
  then have l: "list_all (\<lambda>ns. length ns = NumNumbers cfg) (corpus ?s0)"
    and ne: "corpus ?s0 \<noteq> []"
    by (simp_all add: c)
  from assms(6) s0 have u: "unifSizeT ext (prng ?s0) = (x0, g1)" by simp
  have three: "mutate ext cfg ?s0 = Some (ns, s1) \<longleftrightarrow>
      three_perturbations ext cfg [Fin 0] (?s0\<lparr>prng := g1\<rparr>) ns s1" for ns s1
    using mutate_three [OF v ne l u, of ns s1] by (simp add: s0)
  have ends: "(\<exists>st. cycle ext cfg ?s0 = Some st) \<longleftrightarrow>
      (\<exists>ns s1. three_perturbations ext cfg [Fin 0] (?s0\<lparr>prng := g1\<rparr>) ns s1)"
    unfolding cycle_ends_iff three ..
  have redraw: "\<exists>st. cycle ext cfg ?s0 = Some st" if "redraw_ends ext"
    unfolding cycle_ends_iff using mutate_ends [OF that ne] .
  have scored: "length ns = 1 \<and>
            (\<exists>st. cycle ext cfg ?s0 = Some st \<and>
               diff (state_of st) = Some (d_abs (ns ! 0)) \<and>
               corpus (state_of st) = [[Fin 0], ns] \<and>
               ((\<exists>s'. st = Return s') \<longleftrightarrow> ns = [Fin 0]) \<and>
               (ns = [Fin 0] \<longrightarrow>
                  Fuzz ext cfg ?s0 = Some st \<and>
                  last (events (state_of st)) =
                    SolutionReport ''a'' ''0'' [] (''a='' @ show_double ext (Fin 0))
                      (''a='' @ show_double ext (Fin 0) @ newline @ ''a == 0'' @ newline)) \<and>
               (ns \<noteq> [Fin 0] \<longrightarrow> is_Continue st))"
    if m: "mutate ext cfg ?s0 = Some (ns, s1)" for ns s1
  proof -
    from mutate_Some [OF m v l] obtain base i1 b1 m1 i2 b2 m2 i3 b3 m3 where
      e: "ns = perturb (round_flag cfg) (perturb (round_flag cfg)
                (perturb (round_flag cfg) base i1 b1 m1) i2 b2 m2) i3 b3 m3"
      and b: "base \<in> set (corpus ?s0)"
      by blast
    from b s0 have base: "base = [Fin 0]" by simp
    from e base have len: "length ns = 1" by simp
    then have ns: "ns = [ns ! 0]"
      by (cases ns) simp_all
    have t: "test_conditions ext (conditions cfg) ns s1 = Returns False s1"
      by (simp add: c)
    let ?s3 = "(emit (ParserCompile (expr2 cfg)) (emit (ParserCompile (expr1 cfg)) s1))
                 \<lparr>iter := iter s1 + 1\<rparr>"
    have n: "numStructToDiff ext cfg ns s1 = Returns (d_abs (ns ! 0), ns ! 0, Fin 0) ?s3"
      using assms(1-4) by (simp add: numStructToDiff_Returns c gap_to_zero)
    let ?st = "decide ext cfg ns (d_abs (ns ! 0)) (ns ! 0) (Fin 0) ?s3"
    note k = scored_kept [OF m t n]
    from k(1) s0 have k3: "corpus ?s3 = [[Fin 0]]" "diff ?s3 = None"
      by (simp_all add: kept_def)
    then have i: "improves (d_abs (ns ! 0)) (diff ?s3)"
      by (simp add: improves_def)
    from decide_accept(1,2) [OF i, of ext cfg ns "ns ! 0" "Fin 0"] k3
    have a: "diff (state_of ?st) = Some (d_abs (ns ! 0))"
      "corpus (state_of ?st) = [[Fin 0], ns]"
      by simp_all
    have r: "(\<exists>s'. ?st = Return s') \<longleftrightarrow> ns = [Fin 0]"
    proof -
      have "ns = [Fin 0] \<longleftrightarrow> ns ! 0 = Fin 0"
        using ns by (metis nth_Cons_0)
      with decide_status(2) [of ext cfg ns "d_abs (ns ! 0)" "ns ! 0" "Fin 0" ?s3] i
      show ?thesis
        by (simp add: d_abs_zero_iff)
    qed
    have rep: "Fuzz ext cfg ?s0 = Some ?st \<and> last (events (state_of ?st)) =
             SolutionReport ''a'' ''0'' [] (''a='' @ show_double ext (Fin 0))
               (''a='' @ show_double ext (Fin 0) @ newline @ ''a == 0'' @ newline)"
      if "ns = [Fin 0]"
    proof -
      from that r obtain s' where s': "?st = Return s'" by blast
      then have e1: "last (events (state_of ?st)) = last (events s')" by simp
      from s' [unfolded decide_Return]
      have "last (events s') = SolutionReport (expr1 cfg) (expr2 cfg) (conditions cfg)
          (toString ext cfg ns '','') (toScript ext cfg ns)"
        by simp
      then have "last (events (state_of ?st)) =
             SolutionReport ''a'' ''0'' [] (''a='' @ show_double ext (Fin 0))
               (''a='' @ show_double ext (Fin 0) @ newline @ ''a == 0'' @ newline)"
        unfolding e1 by (simp add: c toString_single toScript_def that)
      moreover from k(2) s' have "cycle ext cfg ?s0 = Some (Return s')" by simp
      from Fuzz_first_round [OF this s0(2)] s' have "Fuzz ext cfg ?s0 = Some ?st" by simp
      ultimately show ?thesis by simp
    qed
    have cont: "is_Continue ?st" if "ns \<noteq> [Fin 0]"
    proof (cases ?st)
      case (Return s')
      with r that show ?thesis by blast
    next
      case (Exit c1 s')
      then show ?thesis by (simp add: decide_status(1))
    qed simp
    from k(2) len a r rep cont show ?thesis
      by blast
  qed
  have step: "i = 0 \<and> m \<noteq> Fin 0 \<and> (\<exists>g. fst (unifDouble ext g) = m) \<and>
      ns' = perturb rnd ns i b m"
    if p: "perturbation ext cfg ns t i b n m ns' t'" for ns t i b n m ns' t'
    using perturbation_facts(1-4) [OF p v] by (simp add: c)
  show ?thesis
    apply (intro conjI allI)
        apply (rule ends)
       apply (rule impI, erule redraw)
      apply (rule three)
     apply (rule impI, erule scored)
    apply (rule impI, erule step)
    done
qed

text \<open>
  The run whose three draws are all below one in size: each step truncates the slot back
  to 0, so the mutated seed is 0 again and the loop returns in its first round.
\<close>

theorem first_round_scores_mutated_seed_witness:
  "perturbation bench_ext cfg_a0 [Fin 0] run_zero
     0 False 0 (Fin (1 / 2)) [Fin 0] (run_zero\<lparr>prng := ([], [Fin (1 / 3), Fin (- 1 / 4)])\<rparr>) \<and>
   perturbation bench_ext cfg_a0 [Fin 0] (run_zero\<lparr>prng := ([], [Fin (1 / 3), Fin (- 1 / 4)])\<rparr>)
     0 False 0 (Fin (1 / 3)) [Fin 0] (run_zero\<lparr>prng := ([], [Fin (- 1 / 4)])\<rparr>) \<and>
   perturbation bench_ext cfg_a0 [Fin 0] (run_zero\<lparr>prng := ([], [Fin (- 1 / 4)])\<rparr>)
     0 False 0 (Fin (- 1 / 4)) [Fin 0] (run_zero\<lparr>prng := ([], [])\<rparr>) \<and>
   mutate bench_ext cfg_a0 run_zero = Some ([Fin 0], run_zero\<lparr>prng := ([], [])\<rparr>) \<and>
   (\<exists>s'. cycle bench_ext cfg_a0 run_zero = Some (Return s') \<and>
      Fuzz bench_ext cfg_a0 run_zero = Some (Return s') \<and>
      corpus s' = [[Fin 0], [Fin 0]] \<and> diff s' = Some (Fin 0) \<and>
      last (events s') =
        SolutionReport ''a'' ''0'' [] ''a=0'' (''a=0'' @ newline @ ''a == 0'' @ newline))"
proof -
  have a: "parser_compile bench_ext ''a'' = Inr (\<lambda>ns. ns ! 0)"
    and z: "parser_compile bench_ext ''0'' = Inr (\<lambda>ns. Fin 0)"
    by (simp_all add: bench_ext_def table_compile_def)
  have c: "cfg_a0 = EquationFuzzer 1 ''a'' ''0'' [] True"
    by (simp add: cfg_a0_def EquationFuzzer_default_def)
  have u: "unifSizeT bench_ext ([], [Fin (1 / 2), Fin (1 / 3), Fin (- 1 / 4)]) =
      (0, ([], [Fin (1 / 2), Fin (1 / 3), Fin (- 1 / 4)]))"
    by (simp add: bench_ext_def script_sizeT_def)
  have r: "constructed cfg_a0 ([], [Fin (1 / 2), Fin (1 / 3), Fin (- 1 / 4)]) = run_zero"
    "run_zero\<lparr>prng := ([], [Fin (1 / 2), Fin (1 / 3), Fin (- 1 / 4)])\<rparr> = run_zero"
    by (simp_all add: run_zero_def constructed_def)
  have sd: "show_double bench_ext (Fin 0) = ''0''"
    by (simp add: bench_ext_def)
  have p1: "perturbation bench_ext cfg_a0 [Fin 0] run_zero
     0 False 0 (Fin (1 / 2)) [Fin 0] (run_zero\<lparr>prng := ([], [Fin (1 / 3), Fin (- 1 / 4)])\<rparr>)"
    by code_simp
  have p2: "perturbation bench_ext cfg_a0 [Fin 0]
     (run_zero\<lparr>prng := ([], [Fin (1 / 3), Fin (- 1 / 4)])\<rparr>)
     0 False 0 (Fin (1 / 3)) [Fin 0] (run_zero\<lparr>prng := ([], [Fin (- 1 / 4)])\<rparr>)"
    by code_simp
  have p3: "perturbation bench_ext cfg_a0 [Fin 0] (run_zero\<lparr>prng := ([], [Fin (- 1 / 4)])\<rparr>)
     0 False 0 (Fin (- 1 / 4)) [Fin 0] (run_zero\<lparr>prng := ([], [])\<rparr>)"
    by code_simp
  from p1 p2 p3 have t: "three_perturbations bench_ext cfg_a0 [Fin 0] run_zero [Fin 0]
      (run_zero\<lparr>prng := ([], [])\<rparr>)"
    unfolding three_perturbations_def by blast
  note f = first_round_scores_mutated_seed [OF a _ z _ c u, unfolded r]
  from f [THEN conjunct2, THEN conjunct2, THEN conjunct1, rule_format,
      of "[Fin 0]" "run_zero\<lparr>prng := ([], [])\<rparr>"] t
  have m: "mutate bench_ext cfg_a0 run_zero = Some ([Fin 0], run_zero\<lparr>prng := ([], [])\<rparr>)"
    by simp
  from f [THEN conjunct2, THEN conjunct2, THEN conjunct2, THEN conjunct1, rule_format,
      OF _ _ m]
  obtain st where st: "cycle bench_ext cfg_a0 run_zero = Some st"
    and d: "diff (state_of st) = Some (d_abs ([Fin 0] ! 0))"
    and co: "corpus (state_of st) = [[Fin 0], [Fin 0]]"
    and rt: "(\<exists>s'. st = Return s') \<longleftrightarrow> [Fin 0 :: double] = [Fin 0]"
    and l: "[Fin 0 :: double] = [Fin 0] \<longrightarrow> Fuzz bench_ext cfg_a0 run_zero = Some st \<and>
        last (events (state_of st)) =
           SolutionReport ''a'' ''0'' [] (''a='' @ show_double bench_ext (Fin 0))
             (''a='' @ show_double bench_ext (Fin 0) @ newline @ ''a == 0'' @ newline)"
    by auto
  from rt obtain s' where "st = Return s'" by auto
  with st d co l sd have "\<exists>s'. cycle bench_ext cfg_a0 run_zero = Some (Return s') \<and>
      Fuzz bench_ext cfg_a0 run_zero = Some (Return s') \<and>
      corpus s' = [[Fin 0], [Fin 0]] \<and> diff s' = Some (Fin 0) \<and>
      last (events s') =
        SolutionReport ''a'' ''0'' [] ''a=0'' (''a=0'' @ newline @ ''a == 0'' @ newline)"
    by auto
  with p1 p2 p3 m show ?thesis by blast
qed

text \<open>
  The run whose draws are 50.5, 20 and 7.7: the first candidate is the mutated seed
  \<open>a = 77\<close>, not the seed; its difference is 77, and the loop goes on after the first
  round. And on the source whose every draw is zero the first round never ends.
\<close>

theorem first_round_counterexample:
  "mutate bench_ext cfg_a0 run_77_7 =
     Some ([Fin 77], run_77_7\<lparr>prng := ([1, 0, 1, 0, 1, 0, 1], [Fin 30, Fin 30, Fin 10])\<rparr>) \<and>
   cycle bench_ext cfg_a0 run_77_7 =
     Some (Continue (run_77_7\<lparr>iter := 1,
       prng := ([1, 0, 1, 0, 1, 0, 1], [Fin 30, Fin 30, Fin 10]),
       corpus := [[Fin 0], [Fin 77]], diff := Some (Fin 77),
       events := [ParserCompile ''a'', ParserCompile ''0'',
                  ProgressReport ''#'' ''#'' ''a=?'' ''?'' ''0'' ''?'']\<rparr>)) \<and>
   unifDouble_contract (steady_ext (Fin 0)) \<and>
   cycle (steady_ext (Fin 0)) cfg_a0 (constructed cfg_a0 0) = None"
proof (intro conjI)
  show "mutate bench_ext cfg_a0 run_77_7 =
     Some ([Fin 77], run_77_7\<lparr>prng := ([1, 0, 1, 0, 1, 0, 1], [Fin 30, Fin 30, Fin 10])\<rparr>)"
    by code_simp
  show "cycle bench_ext cfg_a0 run_77_7 =
     Some (Continue (run_77_7\<lparr>iter := 1,
       prng := ([1, 0, 1, 0, 1, 0, 1], [Fin 30, Fin 30, Fin 10]),
       corpus := [[Fin 0], [Fin 77]], diff := Some (Fin 77),
       events := [ParserCompile ''a'', ParserCompile ''0'',
                  ProgressReport ''#'' ''#'' ''a=?'' ''?'' ''0'' ''?'']\<rparr>))"
    by code_simp
  show "unifDouble_contract (steady_ext (Fin 0))"
    by (rule steady_contract) simp_all
  show "cycle (steady_ext (Fin 0)) cfg_a0 (constructed cfg_a0 0) = None"
    by (simp add: cycle_def mutate_spins_on_zero_source)
qed

section \<open>The sign of the best difference\<close>

lemma d_abs_sub_commute: "d_abs (d_sub a b) = d_abs (d_sub b a)"
  by (cases a; cases b) (simp_all add: d_sub_def)

lemma d_abs_sign: "d_abs v = NaN \<or> d_ge (d_abs v) (Fin 0)"
  by (cases v) simp_all

lemma d_abs_NaN_iff: "d_abs v = NaN \<longleftrightarrow> v = NaN"
  by (cases v) simp_all

lemma d_sub_finite: "d_sub (Fin x) (Fin y) = Fin (x - y)"
  by (simp add: d_sub_def)

lemma numStructToDiff_gap:
  assumes "numStructToDiff ext cfg ns s = Returns (curDiff, res1, res2) s'"
  shows "curDiff = d_abs (d_sub res1 res2)"
    and "\<exists>f1 f2. parser_compile ext (expr1 cfg) = Inr f1 \<and> parser_compile ext (expr2 cfg) = Inr f2
           \<and> res1 = f1 ns \<and> res2 = f2 ns"
  using assms by (auto simp: numStructToDiff_Returns d_abs_sub_commute)

lemma cycle_diff_source:
  assumes "cycle ext cfg s = Some st"
  shows "diff (state_of st) = diff s \<or>
         (\<exists>ns s1 s2 curDiff res1 res2 s3. mutate ext cfg s = Some (ns, s1) \<and>
            numStructToDiff ext cfg ns s2 = Returns (curDiff, res1, res2) s3 \<and>
            diff (state_of st) = Some curDiff)"
  using assms
proof (cases rule: cycle_Some)
  case (cond_exit ns s1 c s2)
  then show ?thesis
    by (auto dest!: mutate_drew test_conditions_frame(2) simp: drew_def frame_def)
next
  case (cond_fail ns s1 s2)
  then show ?thesis
    by (auto dest!: mutate_drew test_conditions_frame(1) simp: drew_def frame_def)
next
  case (score_exit ns s1 s2 c s3)
  then show ?thesis
    by (auto dest!: mutate_drew test_conditions_frame(1) numStructToDiff_Exits
          simp: drew_def frame_def)
next
  case (scored ns s1 s2 curDiff res1 res2 s3)
  note k = scored_kept(1) [OF scored(1-3)]
  show ?thesis
  proof (cases "improves curDiff (diff s3)")
    case True
    from decide_accept(2) [OF True, of ext cfg ns res1 res2] scored(1,3,4) show ?thesis
      by auto
  next
    case False
    with k scored(4) show ?thesis
      by (simp add: decide_reject kept_def)
  qed
qed

lemma cycle_best_not_negative:
  assumes "cycle ext cfg s = Some st" and "best_not_negative s"
  shows "best_not_negative (state_of st)"
  using cycle_diff_source [OF assms(1)]
proof
  assume "diff (state_of st) = diff s"
  with assms(2) show ?thesis by (simp add: best_not_negative_def)
next
  assume "\<exists>ns s1 s2 curDiff res1 res2 s3. mutate ext cfg s = Some (ns, s1) \<and>
            numStructToDiff ext cfg ns s2 = Returns (curDiff, res1, res2) s3 \<and>
            diff (state_of st) = Some curDiff"
  then obtain ns s2 curDiff res1 res2 s3 where
    n: "numStructToDiff ext cfg ns s2 = Returns (curDiff, res1, res2) s3"
    and d: "diff (state_of st) = Some curDiff" by blast
  from numStructToDiff_gap(1) [OF n] d d_abs_sign [of "d_sub res1 res2"] show ?thesis
    by (simp add: best_not_negative_def)
qed

lemma finite_double_Fin: "finite_double v \<longleftrightarrow> (\<exists>x. v = Fin x)"
  by (cases v) simp_all

lemma perturb_finite:
  assumes "list_all finite_double ns" and "i < length ns"
  shows "list_all finite_double (perturb rnd ns i b (Fin x))"
proof -
  from assms obtain y where "ns ! i = Fin y"
    by (auto simp: list_all_length finite_double_Fin)
  with assms show ?thesis
    by (auto simp: list_all_length perturb_def Let_def nth_list_update d_sub_def
          truncate_toward_zero_def)
qed

lemma mutate_finite:
  assumes "valid_config cfg" and "unifDouble_contract ext"
    and "finite_corpus cfg s" and "mutate ext cfg s = Some (ns', s')"
  shows "length ns' = NumNumbers cfg \<and> list_all finite_double ns'"
proof -
  from assms(3) have l: "list_all (\<lambda>ns. length ns = NumNumbers cfg) (corpus s)"
    by (simp add: finite_corpus_def list_all_iff)
  from mutate_Some [OF assms(4,1) l] obtain base i1 b1 m1 i2 b2 m2 i3 b3 m3 where
    e: "ns' = perturb (round_flag cfg) (perturb (round_flag cfg)
              (perturb (round_flag cfg) base i1 b1 m1) i2 b2 m2) i3 b3 m3"
    and b: "base \<in> set (corpus s)"
    and i: "i1 < NumNumbers cfg" "i2 < NumNumbers cfg" "i3 < NumNumbers cfg"
    and g: "\<exists>g. fst (unifDouble ext g) = m1" "\<exists>g. fst (unifDouble ext g) = m2"
      "\<exists>g. fst (unifDouble ext g) = m3"
    by blast
  from g assms(2) obtain x1 x2 x3 where m: "m1 = Fin x1" "m2 = Fin x2" "m3 = Fin x3"
    by (blast dest: contract_finite)
  from b assms(3) have b0: "length base = NumNumbers cfg" "list_all finite_double base"
    by (simp_all add: finite_corpus_def list_all_iff)
  let ?r = "round_flag cfg"
  let ?n1 = "perturb ?r base i1 b1 (Fin x1)"
  let ?n2 = "perturb ?r ?n1 i2 b2 (Fin x2)"
  from b0 i(1) have n1: "list_all finite_double ?n1" by (simp add: perturb_finite)
  with b0 i(2) have n2: "list_all finite_double ?n2" by (simp add: perturb_finite)
  with b0 i(3) have "list_all finite_double (perturb ?r ?n2 i3 b3 (Fin x3))"
    by (simp add: perturb_finite)
  with e m b0 show ?thesis by simp
qed

lemma cycle_finite_search:
  assumes "valid_config cfg" and "unifDouble_contract ext" and "finite_results ext cfg"
    and "cycle ext cfg s = Some st" and "finite_search cfg s"
  shows "finite_search cfg (state_of st)"
proof -
  from assms(5) have fc: "finite_corpus cfg s" and bz: "best_at_least_zero s"
    by (simp_all add: finite_search_def)
  have c: "finite_corpus cfg (state_of st)"
    using cycle_corpus_mutate [OF assms(4)]
  proof
    assume "corpus (state_of st) = corpus s"
    with fc show ?thesis by (simp add: finite_corpus_def)
  next
    assume "\<exists>ns s1. mutate ext cfg s = Some (ns, s1) \<and> corpus (state_of st) = corpus s @ [ns]"
    then obtain ns s1 where m: "mutate ext cfg s = Some (ns, s1)"
      and c: "corpus (state_of st) = corpus s @ [ns]" by blast
    from mutate_finite [OF assms(1,2) fc m] c fc show ?thesis
      by (simp add: finite_corpus_def)
  qed
  have "best_at_least_zero (state_of st)"
    using cycle_diff_source [OF assms(4)]
  proof
    assume "diff (state_of st) = diff s"
    with bz show ?thesis by (simp add: best_at_least_zero_def)
  next
    assume "\<exists>ns s1 s2 curDiff res1 res2 s3. mutate ext cfg s = Some (ns, s1) \<and>
            numStructToDiff ext cfg ns s2 = Returns (curDiff, res1, res2) s3 \<and>
            diff (state_of st) = Some curDiff"
    then obtain ns s1 s2 curDiff res1 res2 s3 where
      m: "mutate ext cfg s = Some (ns, s1)"
      and n: "numStructToDiff ext cfg ns s2 = Returns (curDiff, res1, res2) s3"
      and d: "diff (state_of st) = Some curDiff" by blast
    from mutate_finite [OF assms(1,2) fc m] have f: "length ns = NumNumbers cfg"
      "list_all finite_double ns" by simp_all
    from numStructToDiff_gap(2) [OF n] obtain f1 f2 where
      "parser_compile ext (expr1 cfg) = Inr f1" "parser_compile ext (expr2 cfg) = Inr f2"
      "res1 = f1 ns" "res2 = f2 ns" by blast
    with assms(3) f have "finite_double res1" "finite_double res2"
      unfolding finite_results_def by blast+
    then obtain x y where "res1 = Fin x" "res2 = Fin y"
      by (auto simp: finite_double_Fin)
    with numStructToDiff_gap(1) [OF n] d show ?thesis
      by (simp add: best_at_least_zero_def d_sub_finite)
  qed
  with c show ?thesis by (simp add: finite_search_def)
qed

lemma cycles_invariant:
  assumes step: "\<And>s st. cycle ext cfg s = Some st \<Longrightarrow> P s \<Longrightarrow> P (state_of st)"
  shows "cycles ext cfg n s = Some st \<Longrightarrow> P s \<Longrightarrow> P (state_of st)"
proof (induction n arbitrary: s)
  case 0
  then show ?case by auto
next
  case (Suc n)
  from Suc.prems(1) show ?case
  proof (cases rule: cycles_Suc_Some)
    case (1 st1)
    with step [OF 1(1) Suc.prems(2)] show ?thesis by simp
  next
    case (2 s1)
    from step [OF 2(1) Suc.prems(2)] have "P s1" by simp
    from Suc.IH [OF 2(2) this] show ?thesis .
  qed
qed

text \<open>
  C9, as amended. The difference computed for a scored candidate is the absolute value of
  the gap between the two expression results in double arithmetic, so it is a NaN exactly
  when the gap is (a result is a NaN, or both are the same infinity) and at least zero
  otherwise. Whenever the best difference holds a value \<open>d\<close>, \<open>d\<close> is at least zero or
  a NaN; and when both expressions have finite values at finite assignments (the draws
  being finite, as the distribution promises), \<open>d\<close> is at least zero.
\<close>

theorem best_difference_is_absolute_gap:
  "(\<forall>ns s curDiff res1 res2 s'.
      numStructToDiff ext cfg ns s = Returns (curDiff, res1, res2) s' \<longrightarrow>
      curDiff = d_abs (d_sub res1 res2) \<and>
      (curDiff = NaN \<longleftrightarrow> d_sub res1 res2 = NaN) \<and>
      (curDiff = NaN \<or> d_ge curDiff (Fin 0)))
   \<and> (\<forall>g0 n st d. cycles ext cfg n (constructed cfg g0) = Some st \<longrightarrow>
        diff (state_of st) = Some d \<longrightarrow> d = NaN \<or> d_ge d (Fin 0))
   \<and> (valid_config cfg \<longrightarrow> unifDouble_contract ext \<longrightarrow> finite_results ext cfg \<longrightarrow>
        (\<forall>g0 n st d. cycles ext cfg n (constructed cfg g0) = Some st \<longrightarrow>
           diff (state_of st) = Some d \<longrightarrow> d_ge d (Fin 0)))"
proof (intro conjI allI impI)
  fix ns and s :: "'a fuzzer" and curDiff res1 res2 s'
  assume n: "numStructToDiff ext cfg ns s = Returns (curDiff, res1, res2) s'"
  from numStructToDiff_gap(1) [OF n] show "curDiff = d_abs (d_sub res1 res2)" .
  then show "curDiff = NaN \<longleftrightarrow> d_sub res1 res2 = NaN"
    by (simp add: d_abs_NaN_iff)
  from numStructToDiff_gap(1) [OF n] d_abs_sign [of "d_sub res1 res2"]
  show "curDiff = NaN \<or> d_ge curDiff (Fin 0)" by simp
next
  fix g0 n st d
  assume c: "cycles ext cfg n (constructed cfg g0) = Some st" and d: "diff (state_of st) = Some d"
  have "best_not_negative (constructed cfg g0)"
    by (simp add: best_not_negative_def constructed_def)
  from cycles_invariant [of ext cfg best_not_negative, OF cycle_best_not_negative c this] d
  show "d = NaN \<or> d_ge d (Fin 0)"
    by (simp add: best_not_negative_def)
next
  fix g0 n st d
  assume v: "valid_config cfg" and u: "unifDouble_contract ext" and f: "finite_results ext cfg"
    and c: "cycles ext cfg n (constructed cfg g0) = Some st" and d: "diff (state_of st) = Some d"
  have "finite_search cfg (constructed cfg g0)"
    by (simp add: finite_search_def finite_corpus_def best_at_least_zero_def constructed_def
        list_all_length)
  from cycles_invariant [of ext cfg "finite_search cfg", OF cycle_finite_search [OF v u f] c this] d
  show "d_ge d (Fin 0)"
    by (simp add: finite_search_def best_at_least_zero_def)
qed

text \<open>
  Every text of the bench parser but \<open>0/0\<close> has a finite value at a one-variable
  assignment; the run of two improvements ends with best difference 7.
\<close>

theorem best_difference_is_absolute_gap_witness:
  "numStructToDiff bench_ext cfg_a0 [Fin 77] run_77_7 =
     Returns (Fin 77, Fin 77, Fin 0)
       (run_77_7\<lparr>iter := 1, events := [ParserCompile ''a'', ParserCompile ''0'']\<rparr>) \<and>
   Fin 77 = d_abs (d_sub (Fin 77) (Fin 0)) \<and>
   (\<exists>st. cycles bench_ext cfg_a0 2 run_77_7 = Some st \<and> diff (state_of st) = Some (Fin 7) \<and>
      d_ge (Fin 7) (Fin 0)) \<and>
   finite_results (steady_ext (Fin (5 / 2))) cfg_a0 \<and>
   (\<exists>st. cycles (steady_ext (Fin (5 / 2))) cfg_a0 1 (constructed cfg_a0 0) = Some st \<and>
      diff (state_of st) = Some (Fin 2) \<and> d_ge (Fin 2) (Fin 0))"
proof -
  note T = best_difference_is_absolute_gap [of bench_ext cfg_a0]
  have n: "numStructToDiff bench_ext cfg_a0 [Fin 77] run_77_7 =
     Returns (Fin 77, Fin 77, Fin 0)
       (run_77_7\<lparr>iter := 1, events := [ParserCompile ''a'', ParserCompile ''0'']\<rparr>)"
    by code_simp
  from T [THEN conjunct1, rule_format, OF n]
  have g: "Fin 77 = d_abs (d_sub (Fin 77) (Fin 0))" by simp
  define sB where "sB = run_77_7\<lparr>iter := 2, prng := ([], []),
    corpus := [[Fin 0], [Fin 77], [Fin 7]], diff := Some (Fin 7),
    events := [ParserCompile ''a'', ParserCompile ''0'',
               ProgressReport ''#'' ''#'' ''a=?'' ''?'' ''0'' ''?'',
               ParserCompile ''a'', ParserCompile ''0'',
               ProgressReport ''#'' ''#'' ''a=?'' ''?'' ''0'' ''?'']\<rparr>"
  have c2: "cycles bench_ext cfg_a0 2
      (constructed cfg_a0 ([0, 0, 0, 0, 0, 0, 0, 1, 0, 1, 0, 1, 0, 1],
        [Fin (101 / 2), Fin 20, Fin (77 / 10), Fin 30, Fin 30, Fin 10])) = Some (Continue sB)"
    unfolding sB_def run_77_7_def by code_simp
  have d: "diff (state_of (Continue sB)) = Some (Fin 7)"
    by (simp add: sB_def)
  from T [THEN conjunct2, THEN conjunct1, rule_format, OF c2 d]
  have "d_ge (Fin 7) (Fin 0)" by simp
  with n g c2 d have first: "numStructToDiff bench_ext cfg_a0 [Fin 77] run_77_7 =
     Returns (Fin 77, Fin 77, Fin 0)
       (run_77_7\<lparr>iter := 1, events := [ParserCompile ''a'', ParserCompile ''0'']\<rparr>) \<and>
   Fin 77 = d_abs (d_sub (Fin 77) (Fin 0)) \<and>
   (\<exists>st. cycles bench_ext cfg_a0 2 run_77_7 = Some st \<and> diff (state_of st) = Some (Fin 7) \<and>
      d_ge (Fin 7) (Fin 0))"
    unfolding run_77_7_def by blast
  note S = best_difference_is_absolute_gap [of "steady_ext (Fin (5 / 2))" cfg_a0]
  have cf: "NumNumbers cfg_a0 = 1" "expr1 cfg_a0 = ''a''" "expr2 cfg_a0 = ''0''"
    by (simp_all add: cfg_a0_def EquationFuzzer_default_def EquationFuzzer_def)
  have v: "valid_config cfg_a0"
    by (simp add: valid_config_def cf)
  have u: "unifDouble_contract (steady_ext (Fin (5 / 2)))"
    by (rule steady_contract) simp_all
  have f: "finite_results (steady_ext (Fin (5 / 2))) cfg_a0"
    by (auto simp: finite_results_def cf steady_ext_def table_compile_def list_all_length)
  define sA where "sA = (constructed cfg_a0 (0::nat))\<lparr>iter := 1, prng := 10,
    corpus := [[Fin 0], [Fin 2]], diff := Some (Fin 2),
    events := [ParserCompile ''a'', ParserCompile ''0'',
               ProgressReport ''#'' ''#'' ''a=?'' ''?'' ''0'' ''?'']\<rparr>"
  have c1: "cycles (steady_ext (Fin (5 / 2))) cfg_a0 1 (constructed cfg_a0 0) = Some (Continue sA)"
    unfolding sA_def by code_simp
  have dA: "diff (state_of (Continue sA)) = Some (Fin 2)"
    by (simp add: sA_def)
  from S [THEN conjunct2, THEN conjunct2, rule_format, OF v u f c1 dA]
  have "d_ge (Fin 2) (Fin 0)" .
  with c1 dA have "\<exists>st. cycles (steady_ext (Fin (5 / 2))) cfg_a0 1 (constructed cfg_a0 0) = Some st \<and>
      diff (state_of st) = Some (Fin 2) \<and> d_ge (Fin 2) (Fin 0)"
    by blast
  with first f show ?thesis by blast
qed

text \<open>
  The first expression \<open>0/0\<close> evaluates to a NaN: the first candidate is accepted with
  the difference NaN, which becomes the best difference and is not at least zero.
\<close>

theorem best_difference_counterexample:
  "cycle (steady_ext (Fin (5 / 2))) cfg_nan (constructed cfg_nan 0) =
     Some (Continue ((constructed cfg_nan 0)\<lparr>iter := 1, prng := 10,
       corpus := [[Fin 0], [Fin 2]], diff := Some NaN,
       events := [ParserCompile ''0/0'', ParserCompile ''0'',
                  ProgressReport ''#'' ''#'' ''a=?'' ''?'' ''0'' ''?'']\<rparr>)) \<and>
   \<not> d_ge NaN (Fin 0)"
  by (rule conjI; code_simp)

section \<open>The command line\<close>

text \<open>
  C10. Whatever the arguments, the object \<open>main\<close> constructs has six variables and round
  mode on: \<open>main\<close> passes the two expressions and the conditions only, and the
  constructor's default for \<open>round\<close> is \<open>true\<close>. With two arguments or fewer no search is
  run at all; otherwise the program is \<open>Fuzz\<close> on that object. So every assignment in the
  corpus of a run of the program, and every candidate it mutates, scores and reports, has
  six values with zero fractional parts (the draws being finite numbers, as the
  distribution promises).
\<close>

theorem main_always_round_mode:
  "main_fuzzer argv = EquationFuzzer 6 (argv ! 1) (argv ! 2) (drop 3 argv) True
   \<and> round_flag (main_fuzzer argv) = True
   \<and> (length argv \<le> 2 \<longrightarrow> main ext g0 argv = Some (0, [UsageReport (argv ! 0)]))
   \<and> (2 < length argv \<longrightarrow>
        main ext g0 argv =
          (case Fuzz_loop ext (main_fuzzer argv) (constructed (main_fuzzer argv) g0) of
             None \<Rightarrow> None
           | Some (Exit c s) \<Rightarrow> Some (c, events s)
           | Some st \<Rightarrow> Some (0, events (state_of st))))
   \<and> (unifDouble_contract ext \<longrightarrow>
        (\<forall>n st. cycles ext (main_fuzzer argv) n (constructed (main_fuzzer argv) g0) = Some st \<longrightarrow>
           integral_corpus (main_fuzzer argv) (state_of st)) \<and>
        (\<forall>n sn ns s'.
           cycles ext (main_fuzzer argv) n (constructed (main_fuzzer argv) g0)
             = Some (Continue sn) \<longrightarrow>
           mutate ext (main_fuzzer argv) sn = Some (ns, s') \<longrightarrow>
           length ns = 6 \<and> list_all integral ns))"
proof -
  let ?cfg = "main_fuzzer argv"
  have e: "?cfg = EquationFuzzer 6 (argv ! 1) (argv ! 2) (drop 3 argv) True"
    by (simp add: main_fuzzer_def EquationFuzzer_default_def)
  then have r: "round_flag ?cfg = True" and n6: "NumNumbers ?cfg = 6"
    by (simp_all add: EquationFuzzer_def)
  then have v: "valid_config ?cfg"
    by (simp add: valid_config_def)
  have u: "length argv \<le> 2 \<longrightarrow> main ext g0 argv = Some (0, [UsageReport (argv ! 0)])"
    by (simp add: main_def)
  have d0: "(constructed ?cfg g0)\<lparr>diff := None\<rparr> = constructed ?cfg g0"
    by (simp add: constructed_def)
  have f: "2 < length argv \<longrightarrow>
        main ext g0 argv =
          (case Fuzz_loop ext ?cfg (constructed ?cfg g0) of
             None \<Rightarrow> None
           | Some (Exit c s) \<Rightarrow> Some (c, events s)
           | Some st \<Rightarrow> Some (0, events (state_of st)))"
    by (simp add: main_def Fuzz_def d0)
  have i: "integral_corpus ?cfg (state_of st)"
    if "unifDouble_contract ext" "cycles ext ?cfg n (constructed ?cfg g0) = Some st" for n st
    using cycles_integral [OF r v that(1) constructed_integral that(2)] .
  have m: "length ns = 6 \<and> list_all integral ns"
    if "unifDouble_contract ext" "cycles ext ?cfg n (constructed ?cfg g0) = Some (Continue sn)"
      "mutate ext ?cfg sn = Some (ns, s')" for n sn ns s'
  proof -
    from i [OF that(1,2)] have "integral_corpus ?cfg sn" by simp
    from mutate_integral [OF r v that(1) this that(3)] n6 show ?thesis by simp
  qed
  from e r u f i m show ?thesis by blast
qed

text \<open>
  \<open>fuzz "a" "0"\<close> on the source whose every draw is 2.5: the first candidate has the
  values 0, 4, 0, 0, -2, 0.
\<close>

theorem main_always_round_mode_witness:
  "round_flag (main_fuzzer argv_a0) = True \<and>
   (\<exists>st. cycles (steady_ext (Fin (5 / 2))) (main_fuzzer argv_a0) 1
            (constructed (main_fuzzer argv_a0) 0) = Some st \<and>
      corpus (state_of st) =
        [[Fin 0, Fin 0, Fin 0, Fin 0, Fin 0, Fin 0],
         [Fin 0, Fin 4, Fin 0, Fin 0, Fin (- 2), Fin 0]] \<and>
      integral_corpus (main_fuzzer argv_a0) (state_of st))"
proof -
  note T = main_always_round_mode [of argv_a0 "steady_ext (Fin (5 / 2))" 0]
  have u: "unifDouble_contract (steady_ext (Fin (5 / 2)))"
    by (rule steady_contract) simp_all
  define sR where "sR = (constructed (main_fuzzer argv_a0) (0::nat))\<lparr>iter := 1, prng := 10,
    corpus := [[Fin 0, Fin 0, Fin 0, Fin 0, Fin 0, Fin 0],
               [Fin 0, Fin 4, Fin 0, Fin 0, Fin (- 2), Fin 0]],
    diff := Some (Fin 0),
    events := [ParserCompile ''a'', ParserCompile ''0'',
      ProgressReport ''#'' ''#'' ''a=0,b=?,c=0,d=0,e=?,f=0'' ''0'' ''0'' ''0'',
      SolutionReport ''a'' ''0'' [] ''a=0,b=?,c=0,d=0,e=?,f=0''
        (''a=0'' @ newline @ ''b=?'' @ newline @ ''c=0'' @ newline @ ''d=0'' @ newline
           @ ''e=?'' @ newline @ ''f=0'' @ newline @ ''a == 0'' @ newline)]\<rparr>"
  have c: "cycles (steady_ext (Fin (5 / 2))) (main_fuzzer argv_a0) 1
            (constructed (main_fuzzer argv_a0) 0) = Some (Return sR)"
    unfolding sR_def by code_simp
  from T u c have "integral_corpus (main_fuzzer argv_a0) (state_of (Return sR))"
    by blast
  moreover have "corpus (state_of (Return sR)) =
        [[Fin 0, Fin 0, Fin 0, Fin 0, Fin 0, Fin 0],
         [Fin 0, Fin 4, Fin 0, Fin 0, Fin (- 2), Fin 0]]"
    by (simp add: sR_def)
  moreover from T have "round_flag (main_fuzzer argv_a0) = True"
    by blast
  ultimately show ?thesis using c by blast
qed

end
